theory Spec2Isabelle
  imports Main "HOL-Library.Word"
begin

section \<open>JavaScript strings\<close>

text \<open>
  A JavaScript string is a sequence of UTF-16 code units. String literals of the source
  are written with \<open>str\<close>; characters outside ASCII are given by their code units.
\<close>

type_synonym cu = "16 word"
type_synonym jsstring = "cu list"

definition str :: "string \<Rightarrow> jsstring" where
  "str s = map (\<lambda>c. word_of_nat (of_char c)) s"

definition LF :: cu where "LF = 0x0A"

definition c_star :: cu where "c_star = 0x2A"
definition c_underscore :: cu where "c_underscore = 0x5F"
definition c_tilde :: cu where "c_tilde = 0x7E"
definition c_lbracket :: cu where "c_lbracket = 0x5B"
definition c_rbracket :: cu where "c_rbracket = 0x5D"
definition c_lparen :: cu where "c_lparen = 0x28"
definition c_rparen :: cu where "c_rparen = 0x29"
definition c_quote :: cu where "c_quote = 0x22"

text \<open>The glyphs of the source: U+2022 (bullet), U+1F532 (a surrogate pair), U+2705.\<close>

definition bullet_glyph :: jsstring where "bullet_glyph = [0x2022]"
definition unchecked_glyph :: jsstring where "unchecked_glyph = [0xD83D, 0xDD32]"
definition checked_glyph :: jsstring where "checked_glyph = [0x2705]"

section \<open>Regular expressions with backtracking\<close>

text \<open>
  The patterns that the regular expressions of the source are made of: a pattern
  character, a negated class of one character \<open>[^x]\<close>, the dot, the class \<open>\s\<close>,
  sequence, alternative, the greedy and the lazy \<open>+\<close>, and capturing groups. (A
  non-capturing group needs no constructor.)
\<close>

datatype atom = Chr cu | NotChr cu | Dot | Space

datatype re =
    Eps
  | Atom atom
  | Seq re re
  | Alt re re
  | Plus re
  | PlusLazy re
  | Grp nat re

text \<open>\<open>r*\<close> is \<open>(?:r+|)\<close>: as many rounds as possible first, none last.\<close>

definition star :: "re \<Rightarrow> re" where
  "star r = Alt (Plus r) Eps"

primrec lit :: "jsstring \<Rightarrow> re" where
  "lit [] = Eps"
| "lit (x # xs) = Seq (Atom (Chr x)) (lit xs)"

text \<open>
  Matching follows the backtracking order of ECMAScript: \<open>run test r (s, c)\<close> lists
  every way in which \<open>r\<close> matches a prefix of \<open>s\<close>, as the rest of the input and the
  captures, in the order in which a backtracking matcher tries them. The first entry is
  the match that \<open>RegExp.prototype.exec\<close> reports at that index. \<open>test\<close> says which
  input elements an atom accepts; the input elements are code units, and code units with
  a mark where the origin of the text is followed. A round of \<open>+\<close> that consumes
  nothing ends the repetition.
\<close>

type_synonym 'c caps = "nat \<rightharpoonup> 'c list"
type_synonym 'c mstate = "'c list \<times> 'c caps"

function plus_greedy :: "('c mstate \<Rightarrow> 'c mstate list) \<Rightarrow> 'c mstate \<Rightarrow> 'c mstate list" where
  "plus_greedy f x =
     concat (map (\<lambda>y. (if length (fst y) < length (fst x) then plus_greedy f y else []) @ [y])
                 (f x))"
  by pat_completeness auto
termination
  by (relation "measure (\<lambda>(f, x). length (fst x))") auto

declare plus_greedy.simps [simp del]

function plus_lazy :: "('c mstate \<Rightarrow> 'c mstate list) \<Rightarrow> 'c mstate \<Rightarrow> 'c mstate list" where
  "plus_lazy f x =
     concat (map (\<lambda>y. y # (if length (fst y) < length (fst x) then plus_lazy f y else []))
                 (f x))"
  by pat_completeness auto
termination
  by (relation "measure (\<lambda>(f, x). length (fst x))") auto

declare plus_lazy.simps [simp del]

primrec run :: "(atom \<Rightarrow> 'c \<Rightarrow> bool) \<Rightarrow> re \<Rightarrow> 'c mstate \<Rightarrow> 'c mstate list" where
  "run test Eps x = [x]"
| "run test (Atom a) x =
     (case fst x of [] \<Rightarrow> [] | ch # rest \<Rightarrow> if test a ch then [(rest, snd x)] else [])"
| "run test (Seq a b) x = concat (map (run test b) (run test a x))"
| "run test (Alt a b) x = run test a x @ run test b x"
| "run test (Plus a) x = plus_greedy (run test a) x"
| "run test (PlusLazy a) x = plus_lazy (run test a) x"
| "run test (Grp n a) x =
     map (\<lambda>y. (fst y, (snd y)(n \<mapsto> take (length (fst x) - length (fst y)) (fst x))))
         (run test a x)"

definition exec :: "(atom \<Rightarrow> 'c \<Rightarrow> bool) \<Rightarrow> re \<Rightarrow> 'c list \<Rightarrow> 'c mstate option" where
  "exec test r s = (case run test r (s, Map.empty) of [] \<Rightarrow> None | y # _ \<Rightarrow> Some y)"

text \<open>
  With the \<open>i\<close> flag two code units match when their canonical forms agree. Every
  pattern character of the source is ASCII, and a code unit outside ASCII never has an
  ASCII canonical form, so the upper-casing of the ASCII letters decides every test.
\<close>

definition canonicalize :: "cu \<Rightarrow> cu" where
  "canonicalize ch = (if 0x61 \<le> ch \<and> ch \<le> 0x7A then ch - 0x20 else ch)"

text \<open>The dot matches every code unit but the line terminators.\<close>

definition is_line_terminator :: "cu \<Rightarrow> bool" where
  "is_line_terminator ch = (ch = 0x0A \<or> ch = 0x0D \<or> ch = 0x2028 \<or> ch = 0x2029)"

text \<open>The class \<open>\s\<close>: the white space and line terminator code units of ECMAScript.\<close>

definition is_space :: "cu \<Rightarrow> bool" where
  "is_space ch =
     (ch = 0x09 \<or> ch = 0x0A \<or> ch = 0x0B \<or> ch = 0x0C \<or> ch = 0x0D \<or> ch = 0x20 \<or>
      ch = 0xA0 \<or> ch = 0x1680 \<or> (0x2000 \<le> ch \<and> ch \<le> 0x200A) \<or>
      ch = 0x2028 \<or> ch = 0x2029 \<or> ch = 0x202F \<or> ch = 0x205F \<or> ch = 0x3000 \<or>
      ch = 0xFEFF)"

text \<open>The atoms on code units, without flags (\<open>exact\<close>) and with the \<open>i\<close> flag.\<close>

fun exact :: "atom \<Rightarrow> cu \<Rightarrow> bool" where
  "exact (Chr x) ch = (ch = x)"
| "exact (NotChr x) ch = (ch \<noteq> x)"
| "exact Dot ch = (\<not> is_line_terminator ch)"
| "exact Space ch = is_space ch"

fun icase :: "atom \<Rightarrow> cu \<Rightarrow> bool" where
  "icase (Chr x) ch = (canonicalize ch = canonicalize x)"
| "icase (NotChr x) ch = (canonicalize ch \<noteq> canonicalize x)"
| "icase Dot ch = (\<not> is_line_terminator ch)"
| "icase Space ch = is_space ch"

section \<open>Replacement, splitting and the string methods of the source\<close>

text \<open>
  The replacement templates of the source are literal text and group references
  (\<open>$1\<close>, \<open>$2\<close>); a group that did not take part stands for the empty string.
\<close>

datatype 'c tpart = T "'c list" | G nat

definition subst :: "'c tpart list \<Rightarrow> 'c caps \<Rightarrow> 'c list" where
  "subst t c =
     concat (map (\<lambda>p. case p of T s \<Rightarrow> s
                           | G n \<Rightarrow> (case c n of None \<Rightarrow> [] | Some g \<Rightarrow> g)) t)"

text \<open>
  \<open>String.prototype.replaceAll\<close> with a global regular expression: the leftmost match
  from the current index is replaced and the search goes on behind the match, on the
  input (never on the replacement). After an empty match the index moves on by one
  code unit. None of the regular expressions here looks behind, so the match at an
  index is the match on the rest of the string from that index.
\<close>

function replaceAll :: "(atom \<Rightarrow> 'c \<Rightarrow> bool) \<Rightarrow> re \<Rightarrow> 'c tpart list \<Rightarrow> 'c list \<Rightarrow> 'c list" where
  "replaceAll test r t s =
     (case exec test r s of
        Some y \<Rightarrow>
          if length (fst y) < length s then subst t (snd y) @ replaceAll test r t (fst y)
          else subst t (snd y) @ (case s of [] \<Rightarrow> [] | ch # s' \<Rightarrow> ch # replaceAll test r t s')
      | None \<Rightarrow> (case s of [] \<Rightarrow> [] | ch # s' \<Rightarrow> ch # replaceAll test r t s'))"
  by pat_completeness auto
termination
  by (relation "measure (\<lambda>(test, r, t, s). length s)") auto

declare replaceAll.simps [simp del]

text \<open>
  \<open>String.prototype.split\<close> with a regular expression without capturing groups:
  \<open>cur\<close> is the line collected since the last separator, \<open>s\<close> the input from the
  current index. An empty match directly behind the last separator is skipped.
\<close>

function split_loop :: "(atom \<Rightarrow> 'c \<Rightarrow> bool) \<Rightarrow> re \<Rightarrow> 'c list \<Rightarrow> 'c list \<Rightarrow> 'c list list" where
  "split_loop test r cur s =
     (case s of
        [] \<Rightarrow> [cur]
      | ch # s' \<Rightarrow>
          (case exec test r s of
             None \<Rightarrow> split_loop test r (cur @ [ch]) s'
           | Some y \<Rightarrow>
               if length (fst y) < length s then cur # split_loop test r [] (fst y)
               else if cur = [] then split_loop test r [ch] s'
               else cur # split_loop test r [ch] s'))"
  by pat_completeness auto
termination
  by (relation "measure (\<lambda>(test, r, cur, s). length s)") auto

declare split_loop.simps [simp del]

definition split :: "(atom \<Rightarrow> 'c \<Rightarrow> bool) \<Rightarrow> re \<Rightarrow> 'c list \<Rightarrow> 'c list list" where
  "split test r s =
     (if s = [] then (case exec test r [] of None \<Rightarrow> [[]] | Some y \<Rightarrow> [])
      else split_loop test r [] s)"

definition startsWith :: "'c list \<Rightarrow> 'c list \<Rightarrow> bool" where
  "startsWith s p = (take (length p) s = p)"

definition endsWith :: "'c list \<Rightarrow> 'c list \<Rightarrow> bool" where
  "endsWith s p = (length p \<le> length s \<and> drop (length s - length p) s = p)"

text \<open>
  \<open>String.prototype.replace\<close> with a string pattern: the first occurrence only.
\<close>

fun replace_first :: "jsstring \<Rightarrow> jsstring \<Rightarrow> jsstring \<Rightarrow> jsstring" where
  "replace_first pat rep [] = (if pat = [] then rep else [])"
| "replace_first pat rep (ch # s) =
     (if startsWith (ch # s) pat then rep @ drop (length pat) (ch # s)
      else ch # replace_first pat rep s)"

fun join :: "jsstring \<Rightarrow> jsstring list \<Rightarrow> jsstring" where
  "join sep [] = []"
| "join sep [x] = x"
| "join sep (x # y # ys) = x @ sep @ join sep (y # ys)"

section \<open>The regular expressions of the source\<close>

text \<open>\<^verbatim>\<open>/(?:\n|<br>|&nbsp;)+/gi\<close> (the source escapes the angle brackets)\<close>

definition re_breaks :: re where
  "re_breaks = Plus (Alt (lit [LF]) (Alt (lit (str ''<br>'')) (lit (str ''&nbsp;''))))"

text \<open>\<^verbatim>\<open>/<p>(.+?)<\/p>/gi\<close>\<close>

definition re_paragraph :: re where
  "re_paragraph = Seq (lit (str ''<p>'')) (Seq (Grp 1 (PlusLazy (Atom Dot))) (lit (str ''</p>'')))"

text \<open>\<^verbatim>\<open>/(<\/ol>|<\/ul>|<\/li>)/gi\<close>\<close>

definition re_closing :: re where
  "re_closing =
     Grp 1 (Alt (lit (str ''</ol>'')) (Alt (lit (str ''</ul>'')) (lit (str ''</li>''))))"

text \<open>\<^verbatim>\<open>/\n/\<close>\<close>

definition re_lf :: re where
  "re_lf = Atom (Chr LF)"

text \<open>
  \<^verbatim>\<open>/^\s*\*/\<close> and \<^verbatim>\<open>/^(\s*)\*/\<close>: the assertion \<open>^\<close> (without the \<open>m\<close> flag) holds at
  index 0 only, so \<open>String.prototype.match\<close> with these is the match at index 0.
\<close>

definition re_bullet :: re where
  "re_bullet = Seq (star (Atom Space)) (Atom (Chr c_star))"

definition re_bullet_spaces :: re where
  "re_bullet_spaces = Seq (Grp 1 (star (Atom Space))) (Atom (Chr c_star))"

text \<open>\<^verbatim>\<open>/_([^_]+)_/gi\<close>\<close>

definition re_underline :: re where
  "re_underline =
     Seq (Atom (Chr c_underscore)) (Seq (Grp 1 (Plus (Atom (NotChr c_underscore))))
       (Atom (Chr c_underscore)))"

text \<open>\<^verbatim>\<open>/\*\*([^\*]+)\*\*/gi\<close>\<close>

definition re_bold :: re where
  "re_bold =
     Seq (Atom (Chr c_star)) (Seq (Atom (Chr c_star)) (Seq (Grp 1 (Plus (Atom (NotChr c_star))))
       (Seq (Atom (Chr c_star)) (Atom (Chr c_star)))))"

text \<open>\<^verbatim>\<open>/\*([^\*]+)\*/gi\<close>\<close>

definition re_italic :: re where
  "re_italic =
     Seq (Atom (Chr c_star)) (Seq (Grp 1 (Plus (Atom (NotChr c_star)))) (Atom (Chr c_star)))"

text \<open>\<^verbatim>\<open>/\~([^~]+)\~/gi\<close>\<close>

definition re_strike :: re where
  "re_strike =
     Seq (Atom (Chr c_tilde)) (Seq (Grp 1 (Plus (Atom (NotChr c_tilde)))) (Atom (Chr c_tilde)))"

text \<open>\<^verbatim>\<open>/\[([^\]]+)\]\(([^)]+)\)/gi\<close>\<close>

definition re_link :: re where
  "re_link =
     Seq (Atom (Chr c_lbracket)) (Seq (Grp 1 (Plus (Atom (NotChr c_rbracket))))
       (Seq (Atom (Chr c_rbracket)) (Seq (Atom (Chr c_lparen))
         (Seq (Grp 2 (Plus (Atom (NotChr c_rparen)))) (Atom (Chr c_rparen))))))"

text \<open>\<^verbatim>\<open>/\[ \]/gi\<close> and \<^verbatim>\<open>/\[x\]/gi\<close>\<close>

definition re_unchecked :: re where
  "re_unchecked = lit (str ''[ ]'')"

definition re_checked :: re where
  "re_checked = lit (str ''[x]'')"

text \<open>The replacement templates, in the order of the rules.\<close>

definition t_underline :: "cu tpart list" where
  "t_underline = [T (str ''<u>''), G 1, T (str ''</u>'')]"

definition t_bold :: "cu tpart list" where
  "t_bold = [T (str ''<b>''), G 1, T (str ''</b>'')]"

definition t_italic :: "cu tpart list" where
  "t_italic = [T (str ''<em>''), G 1, T (str ''</em>'')]"

definition t_strike :: "cu tpart list" where
  "t_strike = [T (str ''<s>''), G 1, T (str ''</s>'')]"

definition t_link :: "cu tpart list" where
  "t_link = [T (str ''<a href='' @ [c_quote]), G 2, T (c_quote # str ''>''), G 1, T (str ''</a>'')]"

definition t_unchecked :: "cu tpart list" where
  "t_unchecked = [T unchecked_glyph]"

definition t_checked :: "cu tpart list" where
  "t_checked = [T checked_glyph]"

section \<open>The inline transformer\<close>

definition convertLineToMarkdown :: "jsstring \<Rightarrow> jsstring" where
  "convertLineToMarkdown text =
     replaceAll icase re_checked t_checked
      (replaceAll icase re_unchecked t_unchecked
       (replaceAll icase re_link t_link
        (replaceAll icase re_strike t_strike
         (replaceAll icase re_italic t_italic
          (replaceAll icase re_bold t_bold
           (replaceAll icase re_underline t_underline text))))))"

section \<open>The block splitter, the line grouper and the assembler\<close>

text \<open>
  The variables that \<open>processLine\<close> closes over. Destructuring the result of a failed
  \<open>match\<close> throws a \<open>TypeError\<close>; the model keeps that branch.
\<close>

datatype error = TypeError

record pstate =
  outputLines :: "jsstring list"
  liLines :: "jsstring list"
  liSpaces :: jsstring

definition init_pstate :: pstate where
  "init_pstate = \<lparr>outputLines = [], liLines = [], liSpaces = []\<rparr>"

definition closes_list :: "jsstring \<Rightarrow> bool" where
  "closes_list p =
     (endsWith p (str ''</ol>'') \<or> endsWith p (str ''</ul>'') \<or> endsWith p (str ''</li>''))"

definition processLine :: "bool \<Rightarrow> jsstring option \<Rightarrow> pstate \<Rightarrow> error + pstate" where
  "processLine isText line st =
     (let processedLine = (case line of None \<Rightarrow> None | Some l \<Rightarrow> Some (convertLineToMarkdown l)) in
      if (case processedLine of None \<Rightarrow> False | Some p \<Rightarrow> exec exact re_bullet p \<noteq> None) then
        (case processedLine of
           None \<Rightarrow> Inl TypeError
         | Some p \<Rightarrow>
            (case exec exact re_bullet_spaces p of
               None \<Rightarrow> Inl TypeError
             | Some y \<Rightarrow>
                 (let spaces = (case snd y 1 of None \<Rightarrow> [] | Some g \<Rightarrow> g);
                      st1 = st\<lparr>liLines := liLines st @ [replace_first (spaces @ [c_star]) [] p]\<rparr>
                  in Inr (if length (liSpaces st1) = 0 then st1\<lparr>liSpaces := spaces\<rparr> else st1))))
      else
        (let st1 =
           (if length (liLines st) > 0
            then st\<lparr>outputLines :=
                      outputLines st @ map (\<lambda>li. liSpaces st @ bullet_glyph @ str '' '' @ li) (liLines st),
                    liLines := [], liSpaces := []\<rparr>
            else st)
         in case processedLine of
              None \<Rightarrow> Inr st1
            | Some p \<Rightarrow>
                if closes_list p then Inr (st1\<lparr>outputLines := outputLines st1 @ [p]\<rparr>)
                else if isText
                then Inr (st1\<lparr>outputLines := outputLines st1 @ [str ''<p>'' @ p @ str ''</p>'']\<rparr>)
                else Inr (st1\<lparr>outputLines := outputLines st1 @ [p]\<rparr>)))"

text \<open>The \<open>for\<close> loop over \<open>inputLines\<close>.\<close>

fun processLines :: "bool \<Rightarrow> jsstring list \<Rightarrow> pstate \<Rightarrow> error + pstate" where
  "processLines isText [] st = Inr st"
| "processLines isText (l # ls) st =
     (case processLine isText (Some l) st of
        Inl e \<Rightarrow> Inl e
      | Inr st' \<Rightarrow> processLines isText ls st')"

definition primary_split :: "jsstring \<Rightarrow> jsstring list" where
  "primary_split text = split icase re_breaks text"

definition fallback_split :: "jsstring \<Rightarrow> jsstring list" where
  "fallback_split line =
     split exact re_lf
       (replaceAll icase re_closing [G 1, T [LF]]
         (replaceAll icase re_paragraph [G 1, T [LF]] line))"

definition inputLines_of :: "jsstring \<Rightarrow> jsstring list" where
  "inputLines_of text =
     (let inputLines = primary_split text in
      if length inputLines = 1 then fallback_split (inputLines ! 0) else inputLines)"

definition convertTextToMarkdown :: "jsstring \<Rightarrow> bool \<Rightarrow> error + jsstring" where
  "convertTextToMarkdown text isText =
     (case processLines isText (inputLines_of text) init_pstate of
        Inl e \<Rightarrow> Inl e
      | Inr st \<Rightarrow>
          (case processLine isText None st of
             Inl e \<Rightarrow> Inl e
           | Inr st' \<Rightarrow>
               Inr (if isText then join [] (outputLines st')
                    else join (str ''<br/>'') (outputLines st'))))"

section \<open>Items and the mode toggle\<close>

text \<open>
  Modelled from the spec: the host's item object and its metadata store are not part
  of the sources. An item has a type tag, a content field (a title for a card) and
  string-keyed metadata; \<open>getMetadata\<close> of a key never set is \<open>undefined\<close> (here
  \<open>None\<close>), and \<open>setMetadata\<close> stores the value it is given under the key.
\<close>

datatype meta_value = MString jsstring | MNull | MOther

record item =
  item_type :: jsstring
  content :: jsstring
  title :: jsstring
  metadata :: "jsstring \<rightharpoonup> meta_value"

definition getMetadata :: "item \<Rightarrow> jsstring \<Rightarrow> meta_value option" where
  "getMetadata it k = metadata it k"

definition setMetadata :: "item \<Rightarrow> jsstring \<Rightarrow> meta_value \<Rightarrow> item" where
  "setMetadata it k v = it\<lparr>metadata := (metadata it)(k \<mapsto> v)\<rparr>"

definition MARKDOWN_META_KEY :: jsstring where
  "MARKDOWN_META_KEY = str ''original-markdown''"

definition isContentItem :: "item \<Rightarrow> bool" where
  "isContentItem it =
     (item_type it = str ''text'' \<or> item_type it = str ''shape'' \<or>
      item_type it = str ''sticky_note'' \<or> item_type it = str ''card'')"

definition getItemContent :: "item \<Rightarrow> jsstring" where
  "getItemContent it = (if item_type it = str ''card'' then title it else content it)"

definition setItemContent :: "item \<Rightarrow> jsstring \<Rightarrow> item" where
  "setItemContent it c =
     (if item_type it = str ''card'' then it\<lparr>title := c\<rparr> else it\<lparr>content := c\<rparr>)"

text \<open>The answer of \<open>hasMarkdownEnabled\<close> for an item as the host holds it.\<close>

definition hasMarkdownEnabled :: "item \<Rightarrow> bool" where
  "hasMarkdownEnabled it =
     (case getMetadata it MARKDOWN_META_KEY of Some (MString s) \<Rightarrow> True | _ \<Rightarrow> False)"

text \<open>
  Modelled from the spec (section 5): the program is single-threaded and event-driven,
  and a function is suspended at each call of the host (a metadata read or write) until
  the host answers. The items of the board are numbered, and an event names its items
  by their numbers. The world is the board and the calls of the host that wait for an
  answer, in the order in which they were made.

  The two actions hand \<open>forEachItemWithContent\<close> a callback each. A callback runs up to
  its first call of the host, the \<open>getMetadata\<close> of \<open>hasMarkdownEnabled\<close>, and waits
  there (\<open>Reading\<close>); with the answer it either makes its \<open>setMetadata\<close> call and
  waits again (\<open>Writing\<close>), or returns. Both callbacks return \<open>false\<close>, so no item is
  synchronised.
\<close>

datatype callback = Enabling | Disabling

datatype task = Reading callback nat | Writing nat meta_value

record world =
  board :: "nat \<Rightarrow> item"
  pending :: "task list"

text \<open>
  The call of \<open>setMetadata\<close> that a callback makes when its read is answered with the
  metadata of \<open>it\<close>: the value to store, or none.
\<close>

definition resume :: "callback \<Rightarrow> item \<Rightarrow> meta_value option" where
  "resume cb it =
     (case cb of
        Enabling \<Rightarrow> if \<not> hasMarkdownEnabled it then Some (MString (getItemContent it)) else None
      | Disabling \<Rightarrow> if hasMarkdownEnabled it then Some MNull else None)"

text \<open>
  \<open>forEachItemWithContent\<close> starts the callback on every content item of the list, in
  order; each runs up to its read. What the function returns is a promise for the end
  of all of them.
\<close>

definition forEachItemWithContent :: "nat list \<Rightarrow> callback \<Rightarrow> world \<Rightarrow> world" where
  "forEachItemWithContent items cb w =
     w\<lparr>pending := pending w @ map (Reading cb) (filter (\<lambda>i. isContentItem (board w i)) items)\<rparr>"

text \<open>
  The two actions call \<open>forEachItemWithContent\<close> and neither await nor return its
  promise: an action is over when the callbacks have been started.
\<close>

definition onMarkdownEnable :: "nat list \<Rightarrow> world \<Rightarrow> world" where
  "onMarkdownEnable items w = forEachItemWithContent items Enabling w"

definition onMarkdownDisable :: "nat list \<Rightarrow> world \<Rightarrow> world" where
  "onMarkdownDisable items w = forEachItemWithContent items Disabling w"

text \<open>
  The host answers the call at position \<open>n\<close> of the waiting ones, and the callback runs on
  to its next call or to its end. A call made now is the last in the order.
\<close>

definition answer :: "nat \<Rightarrow> world \<Rightarrow> world" where
  "answer n w =
     (if n < length (pending w) then
        let others = take n (pending w) @ drop (Suc n) (pending w) in
        (case pending w ! n of
           Reading cb i \<Rightarrow>
             (case resume cb (board w i) of
                Some v \<Rightarrow> w\<lparr>pending := others @ [Writing i v]\<rparr>
              | None \<Rightarrow> w\<lparr>pending := others\<rparr>)
         | Writing i v \<Rightarrow>
             w\<lparr>board := (board w)(i := setMetadata (board w i) MARKDOWN_META_KEY v),
               pending := others\<rparr>)
      else w)"

text \<open>The host answers one call after the other, in any order: \<open>ns\<close> is the order.\<close>

definition answers :: "nat list \<Rightarrow> world \<Rightarrow> world" where
  "answers ns w = foldl (\<lambda>w n. answer n w) w ns"

text \<open>The host answers the calls in the order in which they were made, until none waits.\<close>

fun weight :: "task \<Rightarrow> nat" where
  "weight (Reading cb i) = 2"
| "weight (Writing i v) = 1"

function settle :: "world \<Rightarrow> world" where
  "settle w = (if pending w = [] then w else settle (answer 0 w))"
  by pat_completeness auto
termination
  by (relation "measure (\<lambda>w. sum_list (map weight (pending w)))")
    (auto simp: answer_def neq_Nil_conv split: task.splits option.splits)

declare settle.simps [simp del]

text \<open>
  What a callback does to an item when nothing else happens between its read and its
  write.
\<close>

definition enable_item :: "item \<Rightarrow> item" where
  "enable_item it =
     (if isContentItem it \<and> \<not> hasMarkdownEnabled it
      then setMetadata it MARKDOWN_META_KEY (MString (getItemContent it)) else it)"

definition disable_item :: "item \<Rightarrow> item" where
  "disable_item it =
     (if isContentItem it \<and> hasMarkdownEnabled it
      then setMetadata it MARKDOWN_META_KEY MNull else it)"

text \<open>A sticky note that has never been in markdown mode, alone on the board.\<close>

definition sticky :: item where
  "sticky = \<lparr>item_type = str ''sticky_note'', content = str ''*hi*'', title = [],
             metadata = Map.empty\<rparr>"

definition fresh :: world where
  "fresh = \<lparr>board = (\<lambda>i. sticky), pending = []\<rparr>"

section \<open>The rules of the inline transformer, as scans of the text\<close>

text \<open>
  The rules as the specification words them, written without regular expressions, to
  compare with the regular expressions of the source. \<open>startsWith_i\<close> is
  \<open>startsWith\<close> up to the case of ASCII letters.
\<close>

definition startsWith_i :: "jsstring \<Rightarrow> jsstring \<Rightarrow> bool" where
  "startsWith_i s p =
     (length p \<le> length s \<and> map canonicalize (take (length p) s) = map canonicalize p)"

text \<open>
  \<open>span opn x cls s\<close>: the text \<open>s\<close> starts with the opening delimiter, then comes
  the longest run of code units other than \<open>x\<close>, which is not empty, and then the
  closing delimiter. The result is the run and the text behind the closing delimiter.
\<close>

definition span :: "jsstring \<Rightarrow> cu \<Rightarrow> jsstring \<Rightarrow> jsstring \<Rightarrow> (jsstring \<times> jsstring) option" where
  "span opn x cls s =
     (let inner = drop (length opn) s;
          body = takeWhile (\<lambda>ch. ch \<noteq> x) inner;
          rest = dropWhile (\<lambda>ch. ch \<noteq> x) inner
      in if startsWith s opn \<and> body \<noteq> [] \<and> startsWith rest cls
         then Some (body, drop (length cls) rest) else None)"

text \<open>
  One pass over the text: at each index from the left, what \<open>fnd\<close> finds there is
  replaced and the pass goes on behind it; otherwise the code unit is kept.
\<close>

function replace_spans :: "(jsstring \<Rightarrow> (jsstring \<times> jsstring) option) \<Rightarrow> jsstring \<Rightarrow> jsstring" where
  "replace_spans fnd s =
     (case s of
        [] \<Rightarrow> []
      | ch # s' \<Rightarrow>
          (case fnd s of
             None \<Rightarrow> ch # replace_spans fnd s'
           | Some m \<Rightarrow>
               if length (snd m) < length s then fst m @ replace_spans fnd (snd m)
               else ch # replace_spans fnd s'))"
  by pat_completeness auto
termination
  by (relation "measure (\<lambda>(f, s). length s)") auto

declare replace_spans.simps [simp del]

definition find_underline :: "jsstring \<Rightarrow> (jsstring \<times> jsstring) option" where
  "find_underline s =
     map_option (\<lambda>m. (str ''<u>'' @ fst m @ str ''</u>'', snd m))
       (span [c_underscore] c_underscore [c_underscore] s)"

definition find_bold :: "jsstring \<Rightarrow> (jsstring \<times> jsstring) option" where
  "find_bold s =
     map_option (\<lambda>m. (str ''<b>'' @ fst m @ str ''</b>'', snd m))
       (span [c_star, c_star] c_star [c_star, c_star] s)"

definition find_italic :: "jsstring \<Rightarrow> (jsstring \<times> jsstring) option" where
  "find_italic s =
     map_option (\<lambda>m. (str ''<em>'' @ fst m @ str ''</em>'', snd m))
       (span [c_star] c_star [c_star] s)"

definition find_strike :: "jsstring \<Rightarrow> (jsstring \<times> jsstring) option" where
  "find_strike s =
     map_option (\<lambda>m. (str ''<s>'' @ fst m @ str ''</s>'', snd m))
       (span [c_tilde] c_tilde [c_tilde] s)"

definition find_link :: "jsstring \<Rightarrow> (jsstring \<times> jsstring) option" where
  "find_link s =
     (case span [c_lbracket] c_rbracket [c_rbracket, c_lparen] s of
        None \<Rightarrow> None
      | Some m \<Rightarrow>
          (let url = takeWhile (\<lambda>ch. ch \<noteq> c_rparen) (snd m);
               rest = dropWhile (\<lambda>ch. ch \<noteq> c_rparen) (snd m)
           in if url \<noteq> [] \<and> rest \<noteq> []
              then Some (str ''<a href='' @ [c_quote] @ url @ [c_quote] @ str ''>'' @ fst m @ str ''</a>'',
                         tl rest)
              else None))"

definition find_unchecked :: "jsstring \<Rightarrow> (jsstring \<times> jsstring) option" where
  "find_unchecked s = (if startsWith s (str ''[ ]'') then Some (unchecked_glyph, drop 3 s) else None)"

definition find_checked :: "jsstring \<Rightarrow> (jsstring \<times> jsstring) option" where
  "find_checked s =
     (if startsWith s (str ''[x]'') \<or> startsWith s (str ''[X]'')
      then Some (checked_glyph, drop 3 s) else None)"

section \<open>The line grouper, step by step\<close>

text \<open>
  The bullet pattern, read without the matcher: white space, then an asterisk.
\<close>

definition is_bullet :: "jsstring \<Rightarrow> bool" where
  "is_bullet p = startsWith (dropWhile is_space p) [c_star]"

text \<open>
  The three things \<open>processLine\<close> does to its variables: \<open>collect\<close> buffers a bullet
  line, \<open>flush\<close> emits what is buffered, \<open>emit\<close> emits a line that is not a bullet.
\<close>

definition collect :: "jsstring \<Rightarrow> jsstring \<Rightarrow> pstate \<Rightarrow> pstate" where
  "collect spaces li st =
     st\<lparr>liLines := liLines st @ [li],
        liSpaces := (if liSpaces st = [] then spaces else liSpaces st)\<rparr>"

definition flush :: "pstate \<Rightarrow> pstate" where
  "flush st =
     (if liLines st = [] then st
      else st\<lparr>outputLines :=
                outputLines st @ map (\<lambda>li. liSpaces st @ bullet_glyph @ str '' '' @ li) (liLines st),
              liLines := [], liSpaces := []\<rparr>)"

definition emit :: "bool \<Rightarrow> jsstring \<Rightarrow> pstate \<Rightarrow> pstate" where
  "emit isText p st =
     st\<lparr>outputLines :=
          outputLines st @ [if closes_list p \<or> \<not> isText then p else str ''<p>'' @ p @ str ''</p>'']\<rparr>"

definition step :: "bool \<Rightarrow> pstate \<Rightarrow> jsstring \<Rightarrow> pstate" where
  "step isText st l =
     (let p = convertLineToMarkdown l in
      if is_bullet p then collect (takeWhile is_space p) (tl (dropWhile is_space p)) st
      else emit isText p (flush st))"

text \<open>Nothing is buffered without a prefix being held, and the other way round.\<close>

definition idle_clean :: "pstate \<Rightarrow> bool" where
  "idle_clean st = (liLines st = [] \<longrightarrow> liSpaces st = [])"

text \<open>
  What the grouper needs of a rule of the inline transformer: it finds nothing where
  the text starts with white space, what it finds is shorter than the text, and the
  replacement starts with a code unit that is neither white space nor an asterisk.
\<close>

definition inline_rule :: "(jsstring \<Rightarrow> (jsstring \<times> jsstring) option) \<Rightarrow> bool" where
  "inline_rule fnd =
     ((\<forall>ch t. is_space ch \<longrightarrow> fnd (ch # t) = None) \<and>
      (\<forall>s m. fnd s = Some m \<longrightarrow>
         length (snd m) < length s \<and> fst m \<noteq> [] \<and> \<not> is_space (hd (fst m)) \<and> hd (fst m) \<noteq> c_star))"

text \<open>The first prefix of a run of bullet lines that is not empty, if there is one.\<close>

fun first_nonempty :: "jsstring list \<Rightarrow> jsstring" where
  "first_nonempty [] = []"
| "first_nonempty (x # xs) = (if x = [] then first_nonempty xs else x)"

section \<open>The block splitter, read without the matcher\<close>

text \<open>
  \<open>break_at s\<close> is the text behind a break (line feed, \<open><br>\<close>, \<open>&nbsp;\<close>, in any
  case of the letters) at the start of \<open>s\<close>; \<open>skip_breaks s\<close> is the text behind the
  longest run of breaks at the start of \<open>s\<close>.
\<close>

definition break_at :: "jsstring \<Rightarrow> jsstring option" where
  "break_at s =
     (if startsWith s [LF] then Some (drop 1 s)
      else if startsWith_i s (str ''<br>'') then Some (drop 4 s)
      else if startsWith_i s (str ''&nbsp;'') then Some (drop 6 s)
      else None)"

function skip_breaks :: "jsstring \<Rightarrow> jsstring" where
  "skip_breaks s =
     (case break_at s of
        None \<Rightarrow> s
      | Some rest \<Rightarrow> if length rest < length s then skip_breaks rest else s)"
  by pat_completeness auto
termination
  by (relation "measure length") auto

declare skip_breaks.simps [simp del]

text \<open>A break somewhere in the text; a text that is one or more breaks and nothing else.\<close>

fun has_break :: "jsstring \<Rightarrow> bool" where
  "has_break [] = False"
| "has_break (ch # s) = (break_at (ch # s) \<noteq> None \<or> has_break s)"

definition is_break_run :: "jsstring \<Rightarrow> bool" where
  "is_break_run s = (s \<noteq> [] \<and> skip_breaks s = [])"

text \<open>The lines with the separators put back between them.\<close>

fun weave :: "jsstring list \<Rightarrow> jsstring list \<Rightarrow> jsstring" where
  "weave [] seps = []"
| "weave (l # ls) [] = l"
| "weave (l # ls) (sep # seps) = l @ sep @ weave ls seps"

text \<open>No break of the text \<open>cur @ s\<close> starts inside \<open>cur\<close>.\<close>

fun clean_before :: "jsstring \<Rightarrow> jsstring \<Rightarrow> bool" where
  "clean_before [] s = True"
| "clean_before (ch # cur) s = (break_at (ch # cur @ s) = None \<and> clean_before cur s)"

text \<open>
  The fallback, as the specification words it. A paragraph is \<open><p>\<close>, then the
  shortest text that is not empty, has no line terminator and is followed by \<open></p>\<close>,
  then that \<open></p>\<close>; \<open>paragraph_end\<close> looks for the end of the text behind \<open><p>\<close>
  and gives the text of the paragraph and what is behind the paragraph.
\<close>

fun paragraph_end :: "jsstring \<Rightarrow> (jsstring \<times> jsstring) option" where
  "paragraph_end [] = None"
| "paragraph_end (ch # s) =
     (if is_line_terminator ch then None
      else if startsWith_i s (str ''</p>'') then Some ([ch], drop 4 s)
      else (case paragraph_end s of None \<Rightarrow> None | Some m \<Rightarrow> Some (ch # fst m, snd m)))"

definition find_paragraph :: "jsstring \<Rightarrow> (jsstring \<times> jsstring) option" where
  "find_paragraph s =
     (if startsWith_i s (str ''<p>'')
      then (case paragraph_end (drop 3 s) of None \<Rightarrow> None | Some m \<Rightarrow> Some (fst m @ [LF], snd m))
      else None)"

definition find_closing :: "jsstring \<Rightarrow> (jsstring \<times> jsstring) option" where
  "find_closing s =
     (if startsWith_i s (str ''</ol>'') \<or> startsWith_i s (str ''</ul>'') \<or>
         startsWith_i s (str ''</li>'')
      then Some (take 5 s @ [LF], drop 5 s) else None)"

definition strip_paragraphs :: "jsstring \<Rightarrow> jsstring" where
  "strip_paragraphs s = replace_spans find_paragraph s"

definition break_after_closing :: "jsstring \<Rightarrow> jsstring" where
  "break_after_closing s = replace_spans find_closing s"

section \<open>Where the text of a line comes from\<close>

text \<open>
  To follow the text that the replacements insert, each code unit carries the number
  of the rule whose template inserted it, or 0 when it is text of the input line.
\<close>

type_synonym mcu = "cu \<times> nat"

definition from_input :: "jsstring \<Rightarrow> mcu list" where
  "from_input s = map (\<lambda>ch. (ch, 0)) s"

definition unmark :: "mcu list \<Rightarrow> jsstring" where
  "unmark s = map fst s"

definition mark_template :: "nat \<Rightarrow> cu tpart list \<Rightarrow> mcu tpart list" where
  "mark_template k t = map (\<lambda>p. case p of T s \<Rightarrow> T (map (\<lambda>ch. (ch, k)) s) | G n \<Rightarrow> G n) t"

text \<open>
  Three readings of the atoms on marked code units. \<open>lenient\<close> is the source: the
  marks are not seen. With \<open>careful k\<close>, rule \<open>k\<close> accepts nothing that it inserted
  itself, and its pattern characters accept text of the input line only. With
  \<open>opaque\<close> no atom accepts inserted text.
\<close>

definition lenient :: "nat \<Rightarrow> atom \<Rightarrow> mcu \<Rightarrow> bool" where
  "lenient k a m = icase a (fst m)"

definition careful :: "nat \<Rightarrow> atom \<Rightarrow> mcu \<Rightarrow> bool" where
  "careful k a m =
     (icase a (fst m) \<and> snd m \<noteq> k \<and> (case a of Chr x \<Rightarrow> snd m = 0 | _ \<Rightarrow> True))"

definition opaque :: "nat \<Rightarrow> atom \<Rightarrow> mcu \<Rightarrow> bool" where
  "opaque k a m = (icase a (fst m) \<and> snd m = 0)"

text \<open>The inline transformer on marked text, rule \<open>k\<close> reading the atoms with \<open>test k\<close>.\<close>

definition convertLine_marked :: "(nat \<Rightarrow> atom \<Rightarrow> mcu \<Rightarrow> bool) \<Rightarrow> mcu list \<Rightarrow> mcu list" where
  "convertLine_marked test text =
     replaceAll (test 7) re_checked (mark_template 7 t_checked)
      (replaceAll (test 6) re_unchecked (mark_template 6 t_unchecked)
       (replaceAll (test 5) re_link (mark_template 5 t_link)
        (replaceAll (test 4) re_strike (mark_template 4 t_strike)
         (replaceAll (test 3) re_italic (mark_template 3 t_italic)
          (replaceAll (test 2) re_bold (mark_template 2 t_bold)
           (replaceAll (test 1) re_underline (mark_template 1 t_underline) text))))))"

text \<open>The atoms of a pattern; two matcher states related code unit by code unit.\<close>

primrec atoms :: "re \<Rightarrow> atom set" where
  "atoms Eps = {}"
| "atoms (Atom a) = {a}"
| "atoms (Seq a b) = atoms a \<union> atoms b"
| "atoms (Alt a b) = atoms a \<union> atoms b"
| "atoms (Plus a) = atoms a"
| "atoms (PlusLazy a) = atoms a"
| "atoms (Grp n a) = atoms a"

definition rel_state :: "('a \<Rightarrow> 'b \<Rightarrow> bool) \<Rightarrow> 'a mstate \<Rightarrow> 'b mstate \<Rightarrow> bool" where
  "rel_state R x y =
     (list_all2 R (fst x) (fst y) \<and> (\<forall>n. rel_option (list_all2 R) (snd x n) (snd y n)))"

text \<open>
  The text that the templates can insert, and what holds of every code unit before
  rule \<open>k + 1\<close> runs: it is text of the input line or was inserted by one of the rules
  up to \<open>k\<close>; until the link rule has run, no inserted code unit is a space.
\<close>

definition template_text :: "'c tpart list \<Rightarrow> 'c list" where
  "template_text t = concat (map (\<lambda>p. case p of T s \<Rightarrow> s | G n \<Rightarrow> []) t)"

definition markup_units :: jsstring where
  "markup_units =
     concat (map template_text
       [t_underline, t_bold, t_italic, t_strike, t_link, t_unchecked, t_checked])"

definition inserted_ok :: "nat \<Rightarrow> bool \<Rightarrow> mcu \<Rightarrow> bool" where
  "inserted_ok k spaces m =
     (snd m \<le> k \<and>
      (snd m \<noteq> 0 \<longrightarrow> fst m \<in> set markup_units \<and> (spaces \<or> fst m \<noteq> 0x20)))"

text \<open>
  An inserted space stands behind inserted text (the link template has the only one,
  in \<open><a href\<close>), and not at the start.
\<close>

fun spaces_guarded :: "mcu list \<Rightarrow> bool" where
  "spaces_guarded (m # m' # s) =
     ((fst m' = 0x20 \<and> snd m' \<noteq> 0 \<longrightarrow> snd m \<noteq> 0) \<and> spaces_guarded (m' # s))"
| "spaces_guarded s = True"

definition guarded :: "mcu list \<Rightarrow> bool" where
  "guarded s =
     (spaces_guarded s \<and> (case s of [] \<Rightarrow> True | m # _ \<Rightarrow> \<not> (fst m = 0x20 \<and> snd m \<noteq> 0)))"

section \<open>The mode toggle\<close>

lemma hasMarkdownEnabled_setMetadata_string [simp]:
  "hasMarkdownEnabled (setMetadata it MARKDOWN_META_KEY (MString s))"
  by (simp add: hasMarkdownEnabled_def getMetadata_def setMetadata_def)

lemma hasMarkdownEnabled_setMetadata_null [simp]:
  "\<not> hasMarkdownEnabled (setMetadata it MARKDOWN_META_KEY MNull)"
  by (simp add: hasMarkdownEnabled_def getMetadata_def setMetadata_def)

lemma isContentItem_setMetadata [simp]:
  "isContentItem (setMetadata it k v) = isContentItem it"
  by (simp add: isContentItem_def setMetadata_def)

lemma getItemContent_setMetadata [simp]:
  "getItemContent (setMetadata it k v) = getItemContent it"
  by (simp add: getItemContent_def setMetadata_def)

lemma setMetadata_twice [simp]:
  "setMetadata (setMetadata it k v) k v' = setMetadata it k v'"
  by (simp add: setMetadata_def)

subsection \<open>An action returns before the host is asked\<close>

lemma board_forEachItemWithContent [simp]:
  "board (forEachItemWithContent items cb w) = board w"
  by (simp add: forEachItemWithContent_def)

lemma board_onMarkdownEnable [simp]: "board (onMarkdownEnable items w) = board w"
  by (simp add: onMarkdownEnable_def)

lemma board_onMarkdownDisable [simp]: "board (onMarkdownDisable items w) = board w"
  by (simp add: onMarkdownDisable_def)

lemma answers_Nil [simp]: "answers [] w = w"
  by (simp add: answers_def)

lemma answers_Cons [simp]: "answers (n # ns) w = answers ns (answer n w)"
  by (simp add: answers_def)

lemma answers_append [simp]: "answers (ns @ ms) w = answers ms (answers ns w)"
  by (simp add: answers_def)

subsection \<open>What the host is asked to change\<close>

lemma answer_frame:
  "\<exists>v. board (answer n w) i = (board w i)\<lparr>metadata := (metadata (board w i))(MARKDOWN_META_KEY := v)\<rparr>"
proof -
  have same: "\<exists>v. board w i = (board w i)\<lparr>metadata := (metadata (board w i))(MARKDOWN_META_KEY := v)\<rparr>"
    by (rule exI [of _ "metadata (board w i) MARKDOWN_META_KEY"]) simp
  show ?thesis
  proof (cases "n < length (pending w)")
    case False
    then show ?thesis using same by (simp add: answer_def)
  next
    case True
    show ?thesis
    proof (cases "pending w ! n")
      case (Reading cb j)
      then show ?thesis using True same
        by (simp add: answer_def Let_def split: option.splits)
    next
      case (Writing j v)
      show ?thesis
      proof (cases "j = i")
        case True
        have "board (answer n w) i =
              (board w i)\<lparr>metadata := (metadata (board w i))(MARKDOWN_META_KEY := Some v)\<rparr>"
          using \<open>n < length (pending w)\<close> Writing True
          by (simp add: answer_def Let_def setMetadata_def)
        then show ?thesis by blast
      next
        case False
        then show ?thesis using \<open>n < length (pending w)\<close> Writing same
          by (simp add: answer_def Let_def)
      qed
    qed
  qed
qed

lemma answers_frame:
  "\<exists>v. board (answers ns w) i = (board w i)\<lparr>metadata := (metadata (board w i))(MARKDOWN_META_KEY := v)\<rparr>"
proof (induction ns arbitrary: w)
  case Nil
  show ?case by (rule exI [of _ "metadata (board w i) MARKDOWN_META_KEY"]) simp
next
  case (Cons n ns)
  obtain v where v: "board (answer n w) i =
      (board w i)\<lparr>metadata := (metadata (board w i))(MARKDOWN_META_KEY := v)\<rparr>"
    using answer_frame by blast
  obtain v' where "board (answers ns (answer n w)) i =
      (board (answer n w) i)\<lparr>metadata := (metadata (board (answer n w) i))(MARKDOWN_META_KEY := v')\<rparr>"
    using Cons.IH by blast
  then have "board (answers (n # ns) w) i =
      (board w i)\<lparr>metadata := (metadata (board w i))(MARKDOWN_META_KEY := v')\<rparr>"
    by (simp add: v)
  then show ?case by blast
qed

lemma answers_fields:
  "item_type (board (answers ns w) i) = item_type (board w i)"
  "content (board (answers ns w) i) = content (board w i)"
  "title (board (answers ns w) i) = title (board w i)"
proof -
  obtain v where v: "board (answers ns w) i =
      (board w i)\<lparr>metadata := (metadata (board w i))(MARKDOWN_META_KEY := v)\<rparr>"
    using answers_frame by blast
  show "item_type (board (answers ns w) i) = item_type (board w i)"
    "content (board (answers ns w) i) = content (board w i)"
    "title (board (answers ns w) i) = title (board w i)"
    by (simp_all add: v)
qed

lemma answers_getItemContent: "getItemContent (board (answers ns w) i) = getItemContent (board w i)"
  by (simp add: getItemContent_def answers_fields)

text \<open>
  C1: enabling and then disabling markdown leaves the content field (the title of a
  card) of every item as it was, whatever the content is, whatever calls waited before,
  and in whatever order the host answers the calls of the two actions.
\<close>

theorem enable_disable_roundtrip:
  "getItemContent (board (answers ns' (onMarkdownDisable ev' (answers ns (onMarkdownEnable ev w)))) i) =
   getItemContent (board w i)"
  by (simp add: answers_getItemContent)

text \<open>
  C10: after either action, in whatever order the host answers the calls that wait,
  every item of the board is as it was but for the metadata entry under the markdown
  key; the content and the title fields are as before.
\<close>

theorem toggle_frame:
  "(\<exists>v. board (answers ns (onMarkdownEnable ev w)) i =
         (board w i)\<lparr>metadata := (metadata (board w i))(MARKDOWN_META_KEY := v)\<rparr>) \<and>
   (\<exists>v. board (answers ns (onMarkdownDisable ev w)) i =
         (board w i)\<lparr>metadata := (metadata (board w i))(MARKDOWN_META_KEY := v)\<rparr>) \<and>
   content (board (answers ns (onMarkdownEnable ev w)) i) = content (board w i) \<and>
   title (board (answers ns (onMarkdownEnable ev w)) i) = title (board w i) \<and>
   content (board (answers ns (onMarkdownDisable ev w)) i) = content (board w i) \<and>
   title (board (answers ns (onMarkdownDisable ev w)) i) = title (board w i)"
proof -
  have e: "\<exists>v. board (answers ns (onMarkdownEnable ev w)) i =
         (board w i)\<lparr>metadata := (metadata (board w i))(MARKDOWN_META_KEY := v)\<rparr>"
    using answers_frame [of ns "onMarkdownEnable ev w" i] by simp
  have d: "\<exists>v. board (answers ns (onMarkdownDisable ev w)) i =
         (board w i)\<lparr>metadata := (metadata (board w i))(MARKDOWN_META_KEY := v)\<rparr>"
    using answers_frame [of ns "onMarkdownDisable ev w" i] by simp
  have c: "content (board (answers ns (onMarkdownEnable ev w)) i) = content (board w i)"
    "title (board (answers ns (onMarkdownEnable ev w)) i) = title (board w i)"
    "content (board (answers ns (onMarkdownDisable ev w)) i) = content (board w i)"
    "title (board (answers ns (onMarkdownDisable ev w)) i) = title (board w i)"
    by (simp_all add: answers_fields)
  from e d c show ?thesis by (intro conjI)
qed

text \<open>To answer the calls in the order in which they were made is one of the orders.\<close>

lemma settle_run: "\<exists>ns. settle w = answers ns w"
proof (induction w rule: settle.induct)
  case (1 w)
  show ?case
  proof (cases "pending w = []")
    case True
    then have "settle w = answers [] w" by (simp add: settle.simps [of w])
    then show ?thesis by blast
  next
    case False
    then obtain ns where "settle (answer 0 w) = answers ns (answer 0 w)" using 1 by blast
    then have "settle w = answers (0 # ns) w" using False by (simp add: settle.simps [of w])
    then show ?thesis by blast
  qed
qed

lemma settle_quiet: "pending (settle w) = []"
proof (induction w rule: settle.induct)
  case (1 w)
  then show ?case by (cases "pending w = []") (simp_all add: settle.simps [of w])
qed


subsection \<open>An action whose calls are all answered before the next event\<close>

lemma reads_phase:
  "settle \<lparr>board = b, pending = map (Reading cb) js @ map (\<lambda>(i, v). Writing i v) ps\<rparr> =
   settle \<lparr>board = b, pending = map (\<lambda>(i, v). Writing i v)
     (ps @ List.map_filter (\<lambda>i. map_option (Pair i) (resume cb (b i))) js)\<rparr>"
proof (induction js arbitrary: ps)
  case Nil
  show ?case by (simp add: map_filter_simps)
next
  case (Cons j js)
  show ?case
  proof (cases "resume cb (b j)")
    case None
    have "settle \<lparr>board = b, pending = map (Reading cb) (j # js) @ map (\<lambda>(i, v). Writing i v) ps\<rparr> =
          settle \<lparr>board = b, pending = map (Reading cb) js @ map (\<lambda>(i, v). Writing i v) ps\<rparr>"
      by (subst settle.simps) (simp add: answer_def None)
    then show ?thesis using Cons.IH [of ps] by (simp add: map_filter_simps None)
  next
    case (Some v)
    have "settle \<lparr>board = b, pending = map (Reading cb) (j # js) @ map (\<lambda>(i, v). Writing i v) ps\<rparr> =
          settle \<lparr>board = b, pending = map (Reading cb) js @ map (\<lambda>(i, v). Writing i v) (ps @ [(j, v)])\<rparr>"
      by (subst settle.simps) (simp add: answer_def Some)
    then show ?thesis using Cons.IH [of "ps @ [(j, v)]"] by (simp add: map_filter_simps Some)
  qed
qed

lemma writes_phase:
  "settle \<lparr>board = b, pending = map (\<lambda>(i, v). Writing i v) ps\<rparr> =
   \<lparr>board = foldl (\<lambda>b (i, v). b(i := setMetadata (b i) MARKDOWN_META_KEY v)) b ps, pending = []\<rparr>"
proof (induction ps arbitrary: b)
  case Nil
  show ?case by (subst settle.simps) simp
next
  case (Cons p ps)
  obtain i v where p: "p = (i, v)" by (cases p)
  have "settle \<lparr>board = b, pending = map (\<lambda>(i, v). Writing i v) (p # ps)\<rparr> =
        settle \<lparr>board = b(i := setMetadata (b i) MARKDOWN_META_KEY v),
                pending = map (\<lambda>(i, v). Writing i v) ps\<rparr>"
    by (subst settle.simps) (simp add: answer_def p)
  then show ?case using Cons.IH [of "b(i := setMetadata (b i) MARKDOWN_META_KEY v)"] by (simp add: p)
qed

lemma writes_board:
  "foldl (\<lambda>b (i, v). b(i := setMetadata (b i) MARKDOWN_META_KEY v)) b
     (List.map_filter (\<lambda>i. map_option (Pair i) (resume cb (b0 i))) js) j =
   (if j \<in> set js
    then (case resume cb (b0 j) of Some v \<Rightarrow> setMetadata (b j) MARKDOWN_META_KEY v | None \<Rightarrow> b j)
    else b j)"
proof (induction js arbitrary: b)
  case Nil
  show ?case by (simp add: map_filter_simps)
next
  case (Cons i js)
  show ?case
  proof (cases "resume cb (b0 i)")
    case None
    then show ?thesis using Cons.IH [of b] by (auto simp: map_filter_simps)
  next
    case (Some v)
    then show ?thesis
      using Cons.IH [of "b(i := setMetadata (b i) MARKDOWN_META_KEY v)"]
      by (auto simp: map_filter_simps split: option.splits)
  qed
qed

lemma settle_forEachItemWithContent:
  assumes "pending w = []"
  shows "settle (forEachItemWithContent ev cb w) =
     \<lparr>board = (\<lambda>j. if j \<in> set ev \<and> isContentItem (board w j)
                    then (case resume cb (board w j) of
                            Some v \<Rightarrow> setMetadata (board w j) MARKDOWN_META_KEY v
                          | None \<Rightarrow> board w j)
                    else board w j),
      pending = []\<rparr>"
proof -
  obtain b where w: "w = \<lparr>board = b, pending = []\<rparr>" using assms by (cases w) simp
  have bw: "board w = b" by (simp add: w)
  have "settle (forEachItemWithContent ev cb w) =
        settle \<lparr>board = b, pending = map (Reading cb) (filter (\<lambda>i. isContentItem (b i)) ev) @
          map (\<lambda>(i, v). Writing i v) []\<rparr>"
    by (simp add: forEachItemWithContent_def w)
  also have "\<dots> = \<lparr>board = foldl (\<lambda>b (i, v). b(i := setMetadata (b i) MARKDOWN_META_KEY v)) b
      (List.map_filter (\<lambda>i. map_option (Pair i) (resume cb (b i))) (filter (\<lambda>i. isContentItem (b i)) ev)),
      pending = []\<rparr>"
    unfolding reads_phase writes_phase by simp
  also have "\<dots> = \<lparr>board = (\<lambda>j. if j \<in> set ev \<and> isContentItem (b j)
                    then (case resume cb (b j) of
                            Some v \<Rightarrow> setMetadata (b j) MARKDOWN_META_KEY v
                          | None \<Rightarrow> b j)
                    else b j), pending = []\<rparr>"
    by (simp add: writes_board fun_eq_iff)
  finally show ?thesis unfolding bw .
qed

text \<open>
  When no call waits and the calls of an action are answered before anything else
  happens, the action does to each item of the event what it is meant to do.
\<close>

lemma settle_onMarkdownEnable:
  assumes "pending w = []"
  shows "settle (onMarkdownEnable ev w) =
     \<lparr>board = (\<lambda>j. if j \<in> set ev then enable_item (board w j) else board w j), pending = []\<rparr>"
  unfolding onMarkdownEnable_def settle_forEachItemWithContent [OF assms]
  by (auto simp: fun_eq_iff enable_item_def resume_def)

lemma settle_onMarkdownDisable:
  assumes "pending w = []"
  shows "settle (onMarkdownDisable ev w) =
     \<lparr>board = (\<lambda>j. if j \<in> set ev then disable_item (board w j) else board w j), pending = []\<rparr>"
  unfolding onMarkdownDisable_def settle_forEachItemWithContent [OF assms]
  by (auto simp: fun_eq_iff disable_item_def resume_def)

lemma enabled_after_enable: "isContentItem it \<Longrightarrow> hasMarkdownEnabled (enable_item it)"
  by (simp add: enable_item_def)

lemma disabled_after_disable: "isContentItem it \<Longrightarrow> \<not> hasMarkdownEnabled (disable_item it)"
  by (simp add: disable_item_def)

lemma enable_item_noop: "hasMarkdownEnabled it \<Longrightarrow> enable_item it = it"
  by (simp add: enable_item_def)

lemma disable_item_noop: "\<not> hasMarkdownEnabled it \<Longrightarrow> disable_item it = it"
  by (simp add: disable_item_def)

lemma enable_item_idem: "enable_item (enable_item it) = enable_item it"
  by (simp add: enable_item_def)

lemma disable_item_idem: "disable_item (disable_item it) = disable_item it"
  by (simp add: disable_item_def)

lemma awaited_enable:
  assumes "pending w = []"
  shows "i \<in> set ev \<Longrightarrow> isContentItem (board w i) \<Longrightarrow>
           hasMarkdownEnabled (board (settle (onMarkdownEnable ev w)) i)"
    and "hasMarkdownEnabled (board w i) \<Longrightarrow> board (settle (onMarkdownEnable ev w)) i = board w i"
    and "i \<notin> set ev \<Longrightarrow> board (settle (onMarkdownEnable ev w)) i = board w i"
    and "settle (onMarkdownEnable ev (settle (onMarkdownEnable ev w))) = settle (onMarkdownEnable ev w)"
  by (simp_all add: settle_onMarkdownEnable assms enabled_after_enable enable_item_noop
      enable_item_idem fun_eq_iff)

lemma awaited_disable:
  assumes "pending w = []"
  shows "i \<in> set ev \<Longrightarrow> isContentItem (board w i) \<Longrightarrow>
           \<not> hasMarkdownEnabled (board (settle (onMarkdownDisable ev w)) i)"
    and "\<not> hasMarkdownEnabled (board w i) \<Longrightarrow> board (settle (onMarkdownDisable ev w)) i = board w i"
    and "i \<notin> set ev \<Longrightarrow> board (settle (onMarkdownDisable ev w)) i = board w i"
    and "settle (onMarkdownDisable ev (settle (onMarkdownDisable ev w))) = settle (onMarkdownDisable ev w)"
  by (simp_all add: settle_onMarkdownDisable assms disabled_after_disable disable_item_noop
      disable_item_idem fun_eq_iff)

text \<open>
  A disable that comes while the calls of an enable still wait is answered from the
  board as it was before the enable.
\<close>

lemma disable_overtaken:
  assumes "pending w = []" and "isContentItem (board w i)" and "\<not> hasMarkdownEnabled (board w i)"
  shows "settle (onMarkdownDisable [i] (onMarkdownEnable [i] w)) =
     \<lparr>board = (board w)(i := enable_item (board w i)), pending = []\<rparr>"
proof -
  obtain b where w: "w = \<lparr>board = b, pending = []\<rparr>" using assms(1) by (cases w) simp
  have c: "isContentItem (b i)" and n: "\<not> hasMarkdownEnabled (b i)" using assms(2,3) by (simp_all add: w)
  have "onMarkdownDisable [i] (onMarkdownEnable [i] w) =
        \<lparr>board = b, pending = [Reading Enabling i, Reading Disabling i]\<rparr>"
    by (simp add: onMarkdownDisable_def onMarkdownEnable_def forEachItemWithContent_def w c)
  also have "settle \<dots> = settle \<lparr>board = b, pending = [Reading Disabling i, Writing i (MString (getItemContent (b i)))]\<rparr>"
    by (subst settle.simps) (simp add: answer_def resume_def n)
  also have "\<dots> = settle \<lparr>board = b, pending = [Writing i (MString (getItemContent (b i)))]\<rparr>"
    by (subst settle.simps) (simp add: answer_def resume_def n)
  also have "\<dots> = settle \<lparr>board = b(i := setMetadata (b i) MARKDOWN_META_KEY (MString (getItemContent (b i)))), pending = []\<rparr>"
    by (subst settle.simps) (simp add: answer_def)
  also have "\<dots> = \<lparr>board = b(i := setMetadata (b i) MARKDOWN_META_KEY (MString (getItemContent (b i)))), pending = []\<rparr>"
    by (subst settle.simps) simp
  finally show ?thesis by (simp add: w enable_item_def c n)
qed

text \<open>
  C2 fails on the code: the two actions do not wait for \<open>forEachItemWithContent\<close>.
  When an action is over nothing has been stored, so every item is as enabled as it was
  before: the sticky note, never enabled, is not enabled after the enable action, and
  the read of its metadata still waits. A disable action that follows at once is
  answered from the board as it was before the enable; when every call has been
  answered the item is enabled, though the disable came last. (With the calls of the
  enable answered before the disable, the item ends disabled.)
\<close>

theorem toggle_not_awaited:
  "board (onMarkdownEnable ev w) = board w \<and>
   board (onMarkdownDisable ev w) = board w \<and>
   \<not> hasMarkdownEnabled (board (onMarkdownEnable [0] fresh) 0) \<and>
   pending (onMarkdownEnable [0] fresh) = [Reading Enabling 0] \<and>
   hasMarkdownEnabled (board (settle (onMarkdownDisable [0] (onMarkdownEnable [0] fresh))) 0) \<and>
   pending (settle (onMarkdownDisable [0] (onMarkdownEnable [0] fresh))) = [] \<and>
   \<not> hasMarkdownEnabled (board (settle (onMarkdownDisable [0] (settle (onMarkdownEnable [0] fresh)))) 0)"
proof -
  have a: "board (onMarkdownEnable ev w) = board w" "board (onMarkdownDisable ev w) = board w"
    by simp_all
  have b: "\<not> hasMarkdownEnabled (board (onMarkdownEnable [0] fresh) 0)"
    by code_simp
  have c: "pending (onMarkdownEnable [0] fresh) = [Reading Enabling 0]"
    by code_simp
  have d: "hasMarkdownEnabled (board (settle (onMarkdownDisable [0] (onMarkdownEnable [0] fresh))) 0)"
    by code_simp
  have e: "pending (settle (onMarkdownDisable [0] (onMarkdownEnable [0] fresh))) = []"
    by code_simp
  have f: "\<not> hasMarkdownEnabled (board (settle (onMarkdownDisable [0] (settle (onMarkdownEnable [0] fresh)))) 0)"
    by code_simp
  from a b c d e f show ?thesis by (intro conjI)
qed

section \<open>The matcher on the regular expressions of the source\<close>

lemma canonicalize_eq_nonletter:
  "\<not> (0x41 \<le> x \<and> x \<le> 0x5A) \<Longrightarrow> \<not> (0x61 \<le> x \<and> x \<le> 0x7A) \<Longrightarrow>
   (canonicalize ch = canonicalize x) = (ch = x)"
  unfolding canonicalize_def
  by (auto simp: word_le_nat_alt unat_sub word_less_nat_alt; unat_arith)

lemma canonicalize_eq_upper:
  "0x61 \<le> x \<and> x \<le> 0x7A \<Longrightarrow>
   (canonicalize ch = canonicalize x) = (ch = x \<or> ch = x - 0x20)"
  unfolding canonicalize_def
  by (auto simp: word_le_nat_alt unat_sub word_less_nat_alt)

lemma canon_star [simp]: "(canonicalize ch = canonicalize c_star) = (ch = c_star)"
  by (rule canonicalize_eq_nonletter) (simp_all add: c_star_def)

lemma canon_underscore [simp]: "(canonicalize ch = canonicalize c_underscore) = (ch = c_underscore)"
  by (rule canonicalize_eq_nonletter) (simp_all add: c_underscore_def)

lemma canon_tilde [simp]: "(canonicalize ch = canonicalize c_tilde) = (ch = c_tilde)"
  by (rule canonicalize_eq_nonletter) (simp_all add: c_tilde_def)

lemma canon_lbracket [simp]: "(canonicalize ch = canonicalize c_lbracket) = (ch = c_lbracket)"
  by (rule canonicalize_eq_nonletter) (simp_all add: c_lbracket_def)

lemma canon_rbracket [simp]: "(canonicalize ch = canonicalize c_rbracket) = (ch = c_rbracket)"
  by (rule canonicalize_eq_nonletter) (simp_all add: c_rbracket_def)

lemma canon_lparen [simp]: "(canonicalize ch = canonicalize c_lparen) = (ch = c_lparen)"
  by (rule canonicalize_eq_nonletter) (simp_all add: c_lparen_def)

lemma canon_rparen [simp]: "(canonicalize ch = canonicalize c_rparen) = (ch = c_rparen)"
  by (rule canonicalize_eq_nonletter) (simp_all add: c_rparen_def)

lemma str_simps:
  "str [] = []" "str (x # xs) = word_of_nat (of_char x) # str xs"
  by (simp_all add: str_def)

lemma run_Eps: "run test Eps x = [x]"
  by simp

lemma run_Atom_Nil [simp]: "run test (Atom a) ([], c) = []"
  by simp

lemma run_Atom_Cons [simp]:
  "run test (Atom a) (ch # s, c) = (if test a ch then [(s, c)] else [])"
  by simp

lemma run_Seq: "run test (Seq a b) x = concat (map (run test b) (run test a x))"
  by simp

lemma run_Alt: "run test (Alt a b) x = run test a x @ run test b x"
  by simp

lemma run_Plus: "run test (Plus a) x = plus_greedy (run test a) x"
  by simp

lemma run_PlusLazy: "run test (PlusLazy a) x = plus_lazy (run test a) x"
  by simp

lemma run_Grp:
  "run test (Grp n a) x =
     map (\<lambda>y. (fst y, (snd y)(n \<mapsto> take (length (fst x) - length (fst y)) (fst x))))
       (run test a x)"
  by simp

declare run.simps [simp del]

lemma run_Seq_Atom:
  "run test (Seq (Atom a) r) (s, c) =
     (case s of [] \<Rightarrow> [] | ch # s' \<Rightarrow> if test a ch then run test r (s', c) else [])"
  by (cases s) (simp_all add: run_Seq)

lemma startsWith_Nil [simp]: "startsWith s []"
  by (simp add: startsWith_def)

lemma startsWith_Nil_Cons [simp]: "\<not> startsWith [] (b # p)"
  by (simp add: startsWith_def)

lemma startsWith_Cons_Cons [simp]: "startsWith (a # s) (b # p) = (a = b \<and> startsWith s p)"
  by (simp add: startsWith_def)

lemma startsWith_length: "startsWith s p \<Longrightarrow> length p \<le> length s"
  by (metis startsWith_def length_take min.cobounded1)

lemma startsWith_i_Nil [simp]: "startsWith_i s []"
  by (simp add: startsWith_i_def)

lemma startsWith_i_Cons:
  "startsWith_i s (x # xs) =
     (case s of [] \<Rightarrow> False | ch # s' \<Rightarrow> canonicalize ch = canonicalize x \<and> startsWith_i s' xs)"
  by (cases s) (auto simp: startsWith_i_def)

lemma run_lit_icase:
  "run icase (lit xs) (s, c) = (if startsWith_i s xs then [(drop (length xs) s, c)] else [])"
proof (induction xs arbitrary: s)
  case Nil
  show ?case by (simp add: run_Eps)
next
  case (Cons x xs)
  show ?case
  proof (cases s)
    case Nil
    then show ?thesis by (simp add: startsWith_i_Cons run_Seq)
  next
    case (Cons ch s')
    then show ?thesis using Cons.IH [of s'] by (simp add: startsWith_i_Cons run_Seq)
  qed
qed

declare lit.simps [simp del]

text \<open>The greedy \<open>+\<close> on one atom: the longest run first, one code unit last.\<close>

lemma run_Plus_Atom:
  "run test (Plus (Atom a)) (s, c) =
     map (\<lambda>n. (drop n s, c)) (rev [1..<Suc (length (takeWhile (test a) s))])"
proof (induction s)
  case Nil
  show ?case by (simp add: run_Plus plus_greedy.simps)
next
  case (Cons ch s)
  show ?case
  proof (cases "test a ch")
    case False
    then show ?thesis by (simp add: run_Plus plus_greedy.simps)
  next
    case True
    let ?k = "length (takeWhile (test a) s)"
    have "run test (Plus (Atom a)) (ch # s, c) = run test (Plus (Atom a)) (s, c) @ [(s, c)]"
      using True by (simp add: run_Plus plus_greedy.simps [of _ "(ch # s, c)"])
    also have "\<dots> = map (\<lambda>n. (drop n s, c)) (rev [1..<Suc ?k]) @ [(s, c)]"
      by (simp only: Cons.IH)
    also have "\<dots> = map (\<lambda>n. (drop n (ch # s), c)) (rev [1..<Suc (Suc ?k)])"
    proof -
      have "[1..<Suc (Suc ?k)] = 1 # map Suc [1..<Suc ?k]"
        by (metis One_nat_def map_Suc_upt upt_conv_Cons zero_less_Suc Suc_less_eq)
      then show ?thesis by (simp add: rev_map comp_def)
    qed
    finally show ?thesis using True by simp
  qed
qed

lemma concat_map_rev_upt_last:
  assumes "\<And>n. 1 \<le> n \<Longrightarrow> n < k \<Longrightarrow> F n = []"
  shows "concat (map F (rev [1..<Suc k])) = (if k = 0 then [] else F k)"
proof (cases k)
  case 0
  then show ?thesis by simp
next
  case (Suc j)
  have "concat (map F (rev [1..<Suc j])) = []"
    using assms Suc by (auto simp: concat_eq_Nil_conv)
  then show ?thesis using Suc by simp
qed

text \<open>
  A group of a greedy \<open>+\<close> before a pattern that cannot start where the class goes
  on: only the longest run can be followed by it, so there is nothing to backtrack to.
\<close>

lemma run_Grp_Plus_Atom_Seq:
  assumes "\<And>ch s c. test a ch \<Longrightarrow> run test r2 (ch # s, c) = []"
  shows "run test (Seq (Grp g (Plus (Atom a))) r2) (s, c) =
         (if takeWhile (test a) s = [] then []
          else run test r2 (dropWhile (test a) s, c(g \<mapsto> takeWhile (test a) s)))"
proof -
  let ?k = "length (takeWhile (test a) s)"
  let ?F = "\<lambda>n. run test r2 (drop n s, c(g \<mapsto> take (length s - length (drop n s)) s))"
  have run: "run test (Seq (Grp g (Plus (Atom a))) r2) (s, c) = concat (map ?F (rev [1..<Suc ?k]))"
    by (simp add: run_Seq run_Grp run_Plus_Atom comp_def del: upt_Suc)
  have zero: "?F n = []" if "1 \<le> n" "n < ?k" for n
  proof -
    have "n < length s" using that length_takeWhile_le [of "test a" s] by linarith
    then have d: "drop n s = s ! n # drop (Suc n) s" by (simp add: Cons_nth_drop_Suc)
    have "test a (s ! n)" using that(2) by (metis nth_mem set_takeWhileD takeWhile_nth)
    then show ?thesis using assms d by simp
  qed
  have k: "drop ?k s = dropWhile (test a) s" "take ?k s = takeWhile (test a) s"
    by (rule dropWhile_eq_drop [symmetric], rule takeWhile_eq_take [symmetric])
  have "length s - length (drop ?k s) = ?k"
    using length_takeWhile_le [of "test a" s] by simp
  then have "?F ?k = run test r2 (dropWhile (test a) s, c(g \<mapsto> takeWhile (test a) s))"
    using k by simp
  then show ?thesis
    unfolding run using concat_map_rev_upt_last [of ?k ?F, OF zero] by simp
qed

lemma dropWhile_neq_head: "dropWhile (\<lambda>ch. ch \<noteq> x) s = ch # s' \<Longrightarrow> ch = x"
  by (metis (mono_tags, lifting) hd_dropWhile list.sel(1) list.simps(3))

lemma run_core_then:
  assumes a: "test a = (\<lambda>ch. ch \<noteq> x)" and b: "test b = (\<lambda>ch. ch = x)"
  shows "run test (Seq (Grp g (Plus (Atom a))) (Seq (Atom b) r)) (s, c) =
     (if takeWhile (\<lambda>ch. ch \<noteq> x) s \<noteq> [] \<and> dropWhile (\<lambda>ch. ch \<noteq> x) s \<noteq> []
      then run test r (tl (dropWhile (\<lambda>ch. ch \<noteq> x) s), c(g \<mapsto> takeWhile (\<lambda>ch. ch \<noteq> x) s))
      else [])"
proof -
  let ?body = "takeWhile (\<lambda>ch. ch \<noteq> x) s" and ?rest = "dropWhile (\<lambda>ch. ch \<noteq> x) s"
  have "run test (Seq (Grp g (Plus (Atom a))) (Seq (Atom b) r)) (s, c) =
        (if takeWhile (test a) s = [] then []
         else run test (Seq (Atom b) r) (dropWhile (test a) s, c(g \<mapsto> takeWhile (test a) s)))"
    by (rule run_Grp_Plus_Atom_Seq) (simp add: run_Seq_Atom a b)
  then have r: "run test (Seq (Grp g (Plus (Atom a))) (Seq (Atom b) r)) (s, c) =
        (if ?body = [] then [] else run test (Seq (Atom b) r) (?rest, c(g \<mapsto> ?body)))"
    unfolding a .
  show ?thesis
  proof (cases ?rest)
    case Nil
    show ?thesis unfolding r by (simp add: Nil run_Seq_Atom del: dropWhile_eq_Nil_conv)
  next
    case (Cons ch s')
    then have "ch = x" by (rule dropWhile_neq_head)
    then show ?thesis unfolding r by (simp add: Cons run_Seq_Atom b del: dropWhile_eq_Nil_conv)
  qed
qed

lemma run_core1:
  assumes a: "test a = (\<lambda>ch. ch \<noteq> x)" and b: "test b = (\<lambda>ch. ch = x)"
  shows "run test (Seq (Grp g (Plus (Atom a))) (Atom b)) (s, c) =
     (if takeWhile (\<lambda>ch. ch \<noteq> x) s \<noteq> [] \<and> dropWhile (\<lambda>ch. ch \<noteq> x) s \<noteq> []
      then [(tl (dropWhile (\<lambda>ch. ch \<noteq> x) s), c(g \<mapsto> takeWhile (\<lambda>ch. ch \<noteq> x) s))]
      else [])"
proof -
  let ?body = "takeWhile (\<lambda>ch. ch \<noteq> x) s" and ?rest = "dropWhile (\<lambda>ch. ch \<noteq> x) s"
  have "run test (Seq (Grp g (Plus (Atom a))) (Atom b)) (s, c) =
        (if takeWhile (test a) s = [] then []
         else run test (Atom b) (dropWhile (test a) s, c(g \<mapsto> takeWhile (test a) s)))"
    by (rule run_Grp_Plus_Atom_Seq) (simp add: a b)
  then have r: "run test (Seq (Grp g (Plus (Atom a))) (Atom b)) (s, c) =
        (if ?body = [] then [] else run test (Atom b) (?rest, c(g \<mapsto> ?body)))"
    unfolding a .
  show ?thesis
  proof (cases ?rest)
    case Nil
    show ?thesis unfolding r by (simp add: Nil del: dropWhile_eq_Nil_conv)
  next
    case (Cons ch s')
    then have "ch = x" by (rule dropWhile_neq_head)
    then show ?thesis unfolding r by (simp add: Cons b del: dropWhile_eq_Nil_conv)
  qed
qed

lemma span_Cons:
  "span (a # opn) x cls (ch # s) = (if ch = a then span opn x cls s else None)"
  by (simp add: span_def)

lemma span_open_Nil [simp]: "span (a # opn) x cls [] = None"
  by (simp add: span_def)

lemma span_Nil:
  "span [] x cls s =
     (if takeWhile (\<lambda>ch. ch \<noteq> x) s \<noteq> [] \<and> startsWith (dropWhile (\<lambda>ch. ch \<noteq> x) s) cls
      then Some (takeWhile (\<lambda>ch. ch \<noteq> x) s, drop (length cls) (dropWhile (\<lambda>ch. ch \<noteq> x) s))
      else None)"
  by (simp add: span_def Let_def)

lemma startsWith_x_dropWhile:
  "startsWith (dropWhile (\<lambda>ch. ch \<noteq> x) s) (x # cls) =
     (dropWhile (\<lambda>ch. ch \<noteq> x) s \<noteq> [] \<and> startsWith (tl (dropWhile (\<lambda>ch. ch \<noteq> x) s)) cls)"
proof (cases "dropWhile (\<lambda>ch. ch \<noteq> x) s")
  case Nil
  show ?thesis by (simp add: Nil del: dropWhile_eq_Nil_conv)
next
  case (Cons ch s')
  then have "ch = x" by (rule dropWhile_neq_head)
  then show ?thesis by (simp add: Cons del: dropWhile_eq_Nil_conv)
qed

lemma drop_Suc_dropWhile:
  "drop (Suc n) (dropWhile (\<lambda>ch. ch \<noteq> x) s) = drop n (tl (dropWhile (\<lambda>ch. ch \<noteq> x) s))"
  by (simp add: drop_Suc)

lemma span_length:
  assumes "span opn x cls s = Some m"
  shows "length (snd m) < length s"
proof -
  let ?inner = "drop (length opn) s"
  from assms have b: "takeWhile (\<lambda>ch. ch \<noteq> x) ?inner \<noteq> []"
    and m: "snd m = drop (length cls) (dropWhile (\<lambda>ch. ch \<noteq> x) ?inner)"
    by (auto simp: span_def Let_def split: if_splits simp del: takeWhile_eq_Nil_iff)
  have "length (takeWhile (\<lambda>ch. ch \<noteq> x) ?inner) + length (dropWhile (\<lambda>ch. ch \<noteq> x) ?inner)
        = length ?inner"
    by (metis length_append takeWhile_dropWhile_id)
  moreover have "0 < length (takeWhile (\<lambda>ch. ch \<noteq> x) ?inner)" using b by simp
  moreover have "length ?inner \<le> length s" by simp
  ultimately have "length (dropWhile (\<lambda>ch. ch \<noteq> x) ?inner) < length s" by linarith
  then show ?thesis unfolding m by simp
qed

lemma exec_single:
  assumes a: "test a = (\<lambda>ch. ch \<noteq> x)" and b: "test b = (\<lambda>ch. ch = x)"
  shows "exec test (Seq (Atom b) (Seq (Grp g (Plus (Atom a))) (Atom b))) s =
     map_option (\<lambda>m. (snd m, [g \<mapsto> fst m])) (span [x] x [x] s)"
  by (cases s)
    (simp_all add: exec_def run_Seq_Atom run_core1 [OF a b] b span_Cons span_Nil
      startsWith_x_dropWhile drop_Suc_dropWhile
      del: dropWhile_eq_Nil_conv takeWhile_eq_Nil_iff)

lemma exec_double:
  assumes a: "test a = (\<lambda>ch. ch \<noteq> x)" and b: "test b = (\<lambda>ch. ch = x)"
  shows "exec test (Seq (Atom b) (Seq (Atom b)
          (Seq (Grp g (Plus (Atom a))) (Seq (Atom b) (Atom b))))) s =
     map_option (\<lambda>m. (snd m, [g \<mapsto> fst m])) (span [x, x] x [x, x] s)"
proof -
  have tail: "run test (Atom b) (t, c) = (if startsWith t [x] then [(drop 1 t, c)] else [])" for t c
    by (cases t) (auto simp: drop_Suc b)
  show ?thesis
  proof (cases s)
    case Nil
    then show ?thesis by (simp add: exec_def run_Seq_Atom)
  next
    case c1: (Cons a1 s1)
    show ?thesis
    proof (cases s1)
      case Nil
      then show ?thesis by (simp add: c1 exec_def run_Seq_Atom span_Cons b)
    next
      case c2: (Cons a2 s2)
      show ?thesis
        by (simp add: c1 c2 exec_def run_Seq_Atom span_Cons span_Nil run_core_then [OF a b] tail b
            startsWith_x_dropWhile drop_Suc_dropWhile
            del: dropWhile_eq_Nil_conv takeWhile_eq_Nil_iff)
    qed
  qed
qed

lemma icase_Chr_star: "icase (Chr c_star) = (\<lambda>ch. ch = c_star)"
  and icase_NotChr_star: "icase (NotChr c_star) = (\<lambda>ch. ch \<noteq> c_star)"
  and icase_Chr_underscore: "icase (Chr c_underscore) = (\<lambda>ch. ch = c_underscore)"
  and icase_NotChr_underscore: "icase (NotChr c_underscore) = (\<lambda>ch. ch \<noteq> c_underscore)"
  and icase_Chr_tilde: "icase (Chr c_tilde) = (\<lambda>ch. ch = c_tilde)"
  and icase_NotChr_tilde: "icase (NotChr c_tilde) = (\<lambda>ch. ch \<noteq> c_tilde)"
  and icase_Chr_lbracket: "icase (Chr c_lbracket) = (\<lambda>ch. ch = c_lbracket)"
  and icase_Chr_rbracket: "icase (Chr c_rbracket) = (\<lambda>ch. ch = c_rbracket)"
  and icase_NotChr_rbracket: "icase (NotChr c_rbracket) = (\<lambda>ch. ch \<noteq> c_rbracket)"
  and icase_Chr_lparen: "icase (Chr c_lparen) = (\<lambda>ch. ch = c_lparen)"
  and icase_Chr_rparen: "icase (Chr c_rparen) = (\<lambda>ch. ch = c_rparen)"
  and icase_NotChr_rparen: "icase (NotChr c_rparen) = (\<lambda>ch. ch \<noteq> c_rparen)"
  by (rule ext, simp)+

lemma exec_re_italic:
  "exec icase re_italic s =
     map_option (\<lambda>m. (snd m, [1 \<mapsto> fst m])) (span [c_star] c_star [c_star] s)"
  unfolding re_italic_def by (rule exec_single [OF icase_NotChr_star icase_Chr_star])

lemma exec_re_underline:
  "exec icase re_underline s =
     map_option (\<lambda>m. (snd m, [1 \<mapsto> fst m])) (span [c_underscore] c_underscore [c_underscore] s)"
  unfolding re_underline_def by (rule exec_single [OF icase_NotChr_underscore icase_Chr_underscore])

lemma exec_re_strike:
  "exec icase re_strike s =
     map_option (\<lambda>m. (snd m, [1 \<mapsto> fst m])) (span [c_tilde] c_tilde [c_tilde] s)"
  unfolding re_strike_def by (rule exec_single [OF icase_NotChr_tilde icase_Chr_tilde])

lemma exec_re_bold:
  "exec icase re_bold s =
     map_option (\<lambda>m. (snd m, [1 \<mapsto> fst m])) (span [c_star, c_star] c_star [c_star, c_star] s)"
  unfolding re_bold_def by (rule exec_double [OF icase_NotChr_star icase_Chr_star])

lemma exec_re_link:
  "exec icase re_link s =
     (case span [c_lbracket] c_rbracket [c_rbracket, c_lparen] s of
        None \<Rightarrow> None
      | Some m \<Rightarrow>
          if takeWhile (\<lambda>ch. ch \<noteq> c_rparen) (snd m) \<noteq> [] \<and>
             dropWhile (\<lambda>ch. ch \<noteq> c_rparen) (snd m) \<noteq> []
          then Some (tl (dropWhile (\<lambda>ch. ch \<noteq> c_rparen) (snd m)),
                     [1 \<mapsto> fst m, 2 \<mapsto> takeWhile (\<lambda>ch. ch \<noteq> c_rparen) (snd m)])
          else None)"
proof (cases s)
  case Nil
  then show ?thesis
    by (simp add: exec_def re_link_def run_Seq_Atom)
next
  case c1: (Cons a s1)
  show ?thesis
  proof (cases "tl (dropWhile (\<lambda>ch. ch \<noteq> c_rbracket) s1)")
    case Nil
    then show ?thesis
      by (simp add: c1 exec_def re_link_def run_Seq_Atom span_Cons span_Nil
          run_core_then [OF icase_NotChr_rbracket icase_Chr_rbracket]
          run_core1 [OF icase_NotChr_rparen icase_Chr_rparen]
          startsWith_x_dropWhile drop_Suc_dropWhile Let_def
          del: dropWhile_eq_Nil_conv takeWhile_eq_Nil_iff)
  next
    case c2: (Cons b s2)
    then show ?thesis
      by (simp add: c1 exec_def re_link_def run_Seq_Atom span_Cons span_Nil
          run_core_then [OF icase_NotChr_rbracket icase_Chr_rbracket]
          run_core1 [OF icase_NotChr_rparen icase_Chr_rparen]
          startsWith_x_dropWhile drop_Suc_dropWhile Let_def
          del: dropWhile_eq_Nil_conv takeWhile_eq_Nil_iff)
  qed
qed

lemma exec_re_unchecked:
  "exec icase re_unchecked s =
     (if startsWith s (str ''[ ]'') then Some (drop 3 s, Map.empty) else None)"
proof -
  have "startsWith_i s (str ''[ ]'') = startsWith s (str ''[ ]'')"
    by (cases s; cases "tl s"; cases "tl (tl s)")
      (auto simp: startsWith_i_Cons str_simps canonicalize_eq_nonletter)
  moreover have "length (str ''[ ]'') = 3" by (simp add: str_def)
  ultimately show ?thesis
    unfolding exec_def re_unchecked_def run_lit_icase by simp
qed

lemma exec_re_checked:
  "exec icase re_checked s =
     (if startsWith s (str ''[x]'') \<or> startsWith s (str ''[X]'')
      then Some (drop 3 s, Map.empty) else None)"
proof -
  have "startsWith_i s (str ''[x]'') = (startsWith s (str ''[x]'') \<or> startsWith s (str ''[X]''))"
    by (cases s; cases "tl s"; cases "tl (tl s)")
      (auto simp: startsWith_i_Cons str_simps canonicalize_eq_nonletter canonicalize_eq_upper)
  moreover have "length (str ''[x]'') = 3" by (simp add: str_def)
  ultimately show ?thesis
    unfolding exec_def re_checked_def run_lit_icase by simp
qed

text \<open>A pass of \<open>replaceAll\<close> is a pass of \<open>replace_spans\<close> with what the matcher finds.\<close>

lemma replaceAll_eq_replace_spans:
  assumes "\<And>s. map_option (\<lambda>y. (subst t (snd y), fst y)) (exec test r s) = fnd s"
    and "\<And>s m. fnd s = Some m \<Longrightarrow> length (snd m) < length s"
  shows "replaceAll test r t s = replace_spans fnd s"
proof (induction s rule: length_induct)
  case (1 s)
  show ?case
  proof (cases "exec test r s")
    case None
    then have f: "fnd s = None" using assms(1) [of s] by simp
    show ?thesis
    proof (cases s)
      case Nil
      then show ?thesis
        using None by (simp add: replaceAll.simps [of test r t "[]"] replace_spans.simps [of fnd "[]"])
    next
      case (Cons ch s')
      then have "replaceAll test r t s' = replace_spans fnd s'" using 1 by simp
      then show ?thesis
        using None f Cons
        by (simp add: replaceAll.simps [of test r t "ch # s'"] replace_spans.simps [of fnd "ch # s'"])
    qed
  next
    case (Some y)
    then have f: "fnd s = Some (subst t (snd y), fst y)" using assms(1) [of s] by auto
    then have l: "length (fst y) < length s" using assms(2) by fastforce
    then have ih: "replaceAll test r t (fst y) = replace_spans fnd (fst y)" using 1 by simp
    obtain ch s' where c: "s = ch # s'" using l by (cases s) auto
    show ?thesis
      using Some f l ih unfolding c
      by (simp add: replaceAll.simps [of test r t "ch # s'"] replace_spans.simps [of fnd "ch # s'"])
  qed
qed

lemma subst_1 [simp]: "subst [T a, G n, T b] [n \<mapsto> g] = a @ g @ b"
  by (simp add: subst_def)

lemma subst_0 [simp]: "subst [T a] c = a"
  by (simp add: subst_def)

lemma find_underline_exec:
  "map_option (\<lambda>y. (subst t_underline (snd y), fst y)) (exec icase re_underline s) = find_underline s"
  by (simp add: exec_re_underline find_underline_def t_underline_def option.map_comp comp_def)

lemma find_bold_exec:
  "map_option (\<lambda>y. (subst t_bold (snd y), fst y)) (exec icase re_bold s) = find_bold s"
  by (simp add: exec_re_bold find_bold_def t_bold_def option.map_comp comp_def)

lemma find_italic_exec:
  "map_option (\<lambda>y. (subst t_italic (snd y), fst y)) (exec icase re_italic s) = find_italic s"
  by (simp add: exec_re_italic find_italic_def t_italic_def option.map_comp comp_def)

lemma find_strike_exec:
  "map_option (\<lambda>y. (subst t_strike (snd y), fst y)) (exec icase re_strike s) = find_strike s"
  by (simp add: exec_re_strike find_strike_def t_strike_def option.map_comp comp_def)

lemma find_link_exec:
  "map_option (\<lambda>y. (subst t_link (snd y), fst y)) (exec icase re_link s) = find_link s"
  by (simp add: exec_re_link find_link_def t_link_def subst_def Let_def split: option.splits
      del: dropWhile_eq_Nil_conv takeWhile_eq_Nil_iff)

lemma find_unchecked_exec:
  "map_option (\<lambda>y. (subst t_unchecked (snd y), fst y)) (exec icase re_unchecked s) = find_unchecked s"
  by (simp add: exec_re_unchecked find_unchecked_def t_unchecked_def)

lemma find_checked_exec:
  "map_option (\<lambda>y. (subst t_checked (snd y), fst y)) (exec icase re_checked s) = find_checked s"
  by (simp add: exec_re_checked find_checked_def t_checked_def)

lemma find_underline_length: "find_underline s = Some m \<Longrightarrow> length (snd m) < length s"
  by (auto simp: find_underline_def dest: span_length)

lemma find_bold_length: "find_bold s = Some m \<Longrightarrow> length (snd m) < length s"
  by (auto simp: find_bold_def dest: span_length)

lemma find_italic_length: "find_italic s = Some m \<Longrightarrow> length (snd m) < length s"
  by (auto simp: find_italic_def dest: span_length)

lemma find_strike_length: "find_strike s = Some m \<Longrightarrow> length (snd m) < length s"
  by (auto simp: find_strike_def dest: span_length)

lemma find_link_length:
  assumes "find_link s = Some m"
  shows "length (snd m) < length s"
proof -
  from assms obtain m1 where s: "span [c_lbracket] c_rbracket [c_rbracket, c_lparen] s = Some m1"
    and m: "snd m = tl (dropWhile (\<lambda>ch. ch \<noteq> c_rparen) (snd m1))"
    by (auto simp: find_link_def Let_def split: option.splits if_splits
        simp del: dropWhile_eq_Nil_conv takeWhile_eq_Nil_iff)
  have "length (snd m) \<le> length (snd m1)"
    unfolding m using length_dropWhile_le [of "\<lambda>ch. ch \<noteq> c_rparen" "snd m1"] by simp
  then show ?thesis using span_length [OF s] by simp
qed

lemma find_unchecked_length: "find_unchecked s = Some m \<Longrightarrow> length (snd m) < length s"
  by (auto simp: find_unchecked_def str_def split: if_splits dest!: startsWith_length)

lemma find_checked_length: "find_checked s = Some m \<Longrightarrow> length (snd m) < length s"
  by (auto simp: find_checked_def str_def split: if_splits dest!: startsWith_length)

lemmas replaceAll_rules =
  replaceAll_eq_replace_spans [OF find_underline_exec find_underline_length]
  replaceAll_eq_replace_spans [OF find_bold_exec find_bold_length]
  replaceAll_eq_replace_spans [OF find_italic_exec find_italic_length]
  replaceAll_eq_replace_spans [OF find_strike_exec find_strike_length]
  replaceAll_eq_replace_spans [OF find_link_exec find_link_length]
  replaceAll_eq_replace_spans [OF find_unchecked_exec find_unchecked_length]
  replaceAll_eq_replace_spans [OF find_checked_exec find_checked_length]

lemma convertLineToMarkdown_rules:
  "convertLineToMarkdown text =
     replace_spans find_checked (replace_spans find_unchecked (replace_spans find_link
       (replace_spans find_strike (replace_spans find_italic (replace_spans find_bold
         (replace_spans find_underline text))))))"
  unfolding convertLineToMarkdown_def by (simp only: replaceAll_rules)

section \<open>The inline transformer, rule by rule\<close>

lemma bold_then_italic_example:
  "convertLineToMarkdown (str ''**bold** and *italic*'') = str ''<b>bold</b> and <em>italic</em>''"
  by code_simp

lemma italic_then_bold_example:
  "replaceAll icase re_bold t_bold (replaceAll icase re_italic t_italic (str ''**bold** and *italic*'')) =
   str ''*<em>bold</em><em> and </em>italic*''"
  by code_simp

text \<open>
  C3: the inline transformer is one pass of each rule over the whole line, in the order
  underline, bold, italic, strikethrough, link, unchecked box, checked box, each pass
  working on the result of the pass before. On \<open>**bold** and *italic*\<close> the bold rule
  takes the doubled asterisks and the italic rule the single ones; with the italic rule
  first the result would be another.
\<close>

theorem inline_rules_in_order:
  "convertLineToMarkdown text =
     replace_spans find_checked (replace_spans find_unchecked (replace_spans find_link
       (replace_spans find_strike (replace_spans find_italic (replace_spans find_bold
         (replace_spans find_underline text)))))) \<and>
   convertLineToMarkdown (str ''**bold** and *italic*'') = str ''<b>bold</b> and <em>italic</em>'' \<and>
   replaceAll icase re_bold t_bold
     (replaceAll icase re_italic t_italic (str ''**bold** and *italic*'')) =
   str ''*<em>bold</em><em> and </em>italic*''"
  using convertLineToMarkdown_rules bold_then_italic_example italic_then_bold_example
  by (intro conjI)

section \<open>The line grouper\<close>

lemma concat_map_upt_star:
  assumes "\<And>n. n < k \<Longrightarrow> F n = []"
  shows "concat (map F (rev [1..<Suc k])) @ F 0 = F k"
proof (cases k)
  case 0
  then show ?thesis by simp
next
  case (Suc j)
  have "concat (map F (rev [1..<Suc k])) = F k"
    using concat_map_rev_upt_last [of k F] assms Suc by simp
  moreover have "F 0 = []" using assms Suc by simp
  ultimately show ?thesis by simp
qed

lemma run_star_Atom_then:
  assumes "\<And>ch s c. test a ch \<Longrightarrow> run test r2 (ch # s, c) = []"
  shows "run test (Seq (Grp g (star (Atom a))) r2) (s, c) =
           run test r2 (dropWhile (test a) s, c(g \<mapsto> takeWhile (test a) s))"
    and "run test (Seq (star (Atom a)) r2) (s, c) = run test r2 (dropWhile (test a) s, c)"
proof -
  let ?k = "length (takeWhile (test a) s)"
  have lt: "n < length s \<and> test a (s ! n)" if "n < ?k" for n
  proof -
    have "n < length s" using that length_takeWhile_le [of "test a" s] by linarith
    moreover have "test a (s ! n)" using that by (metis nth_mem set_takeWhileD takeWhile_nth)
    ultimately show ?thesis by simp
  qed
  have k: "drop ?k s = dropWhile (test a) s" "take ?k s = takeWhile (test a) s"
    by (rule dropWhile_eq_drop [symmetric], rule takeWhile_eq_take [symmetric])
  have len: "length s - length (drop ?k s) = ?k"
    using length_takeWhile_le [of "test a" s] by simp
  {
    let ?F = "\<lambda>n. run test r2 (drop n s, c(g \<mapsto> take (length s - length (drop n s)) s))"
    have "run test (Seq (Grp g (star (Atom a))) r2) (s, c) = concat (map ?F (rev [1..<Suc ?k])) @ ?F 0"
      by (simp add: star_def run_Seq run_Grp run_Alt run_Eps run_Plus_Atom comp_def del: upt_Suc)
    moreover have "?F n = []" if "n < ?k" for n
      using lt [OF that] assms by (simp add: Cons_nth_drop_Suc [symmetric])
    ultimately have "run test (Seq (Grp g (star (Atom a))) r2) (s, c) = ?F ?k"
      using concat_map_upt_star [of ?k ?F] by simp
    then show "run test (Seq (Grp g (star (Atom a))) r2) (s, c) =
           run test r2 (dropWhile (test a) s, c(g \<mapsto> takeWhile (test a) s))"
      using k len by simp
  }
  {
    let ?F = "\<lambda>n. run test r2 (drop n s, c)"
    have "run test (Seq (star (Atom a)) r2) (s, c) = concat (map ?F (rev [1..<Suc ?k])) @ ?F 0"
      by (simp add: star_def run_Seq run_Alt run_Eps run_Plus_Atom comp_def del: upt_Suc)
    moreover have "?F n = []" if "n < ?k" for n
      using lt [OF that] assms by (simp add: Cons_nth_drop_Suc [symmetric])
    ultimately have "run test (Seq (star (Atom a)) r2) (s, c) = ?F ?k"
      using concat_map_upt_star [of ?k ?F] by simp
    then show "run test (Seq (star (Atom a)) r2) (s, c) = run test r2 (dropWhile (test a) s, c)"
      using k by simp
  }
qed

lemma not_space_star [simp]: "\<not> is_space c_star"
  by (simp add: is_space_def c_star_def)

lemma run_star_tail:
  "run exact (Atom (Chr c_star)) (t, c) = (if startsWith t [c_star] then [(tl t, c)] else [])"
  by (cases t) auto

lemma exec_re_bullet:
  "exec exact re_bullet p =
     (if is_bullet p then Some (tl (dropWhile is_space p), Map.empty) else None)"
proof -
  have "run exact re_bullet (p, Map.empty) =
          run exact (Atom (Chr c_star)) (dropWhile (exact Space) p, Map.empty)"
    unfolding re_bullet_def by (rule run_star_Atom_then(2)) auto
  moreover have "exact Space = is_space" by (rule ext) simp
  ultimately show ?thesis
    by (simp add: exec_def run_star_tail is_bullet_def)
qed

lemma exec_re_bullet_spaces:
  "exec exact re_bullet_spaces p =
     (if is_bullet p then Some (tl (dropWhile is_space p), [1 \<mapsto> takeWhile is_space p]) else None)"
proof -
  have "run exact re_bullet_spaces (p, Map.empty) =
          run exact (Atom (Chr c_star))
            (dropWhile (exact Space) p, [1 \<mapsto> takeWhile (exact Space) p])"
    unfolding re_bullet_spaces_def by (rule run_star_Atom_then(1)) auto
  moreover have "exact Space = is_space" by (rule ext) simp
  ultimately show ?thesis
    by (simp add: exec_def run_star_tail is_bullet_def)
qed

lemma replace_first_prefix:
  "startsWith p pat \<Longrightarrow> p \<noteq> [] \<Longrightarrow> replace_first pat [] p = drop (length pat) p"
  by (cases p) simp_all

lemma is_bullet_decomp:
  assumes "is_bullet p"
  shows "p = takeWhile is_space p @ c_star # tl (dropWhile is_space p)"
proof -
  from assms obtain r where "dropWhile is_space p = c_star # r"
    by (cases "dropWhile is_space p") (auto simp: is_bullet_def)
  then show ?thesis by (metis list.sel(3) takeWhile_dropWhile_id)
qed

lemma strip_marker:
  assumes "is_bullet p"
  shows "replace_first (takeWhile is_space p @ [c_star]) [] p = tl (dropWhile is_space p)"
proof -
  let ?ws = "takeWhile is_space p" and ?r = "tl (dropWhile is_space p)"
  have p: "p = ?ws @ c_star # ?r" using assms by (rule is_bullet_decomp)
  have "startsWith (?ws @ c_star # ?r) (?ws @ [c_star])" by (simp add: startsWith_def)
  then have "startsWith p (?ws @ [c_star])" using p by simp
  moreover have "p \<noteq> []" using p by auto
  ultimately have "replace_first (?ws @ [c_star]) [] p = drop (length (?ws @ [c_star])) p"
    by (rule replace_first_prefix)
  also have "\<dots> = drop (length (?ws @ [c_star])) (?ws @ c_star # ?r)" using p by simp
  also have "\<dots> = ?r" by simp
  finally show ?thesis .
qed

lemma processLine_None: "processLine isText None st = Inr (flush st)"
  by (simp add: processLine_def flush_def)

lemma processLine_Some: "processLine isText (Some l) st = Inr (step isText st l)"
proof (cases "is_bullet (convertLineToMarkdown l)")
  case True
  then show ?thesis
    by (simp add: processLine_def step_def collect_def exec_re_bullet exec_re_bullet_spaces
        strip_marker Let_def)
next
  case False
  then show ?thesis
    by (auto simp: processLine_def step_def emit_def flush_def exec_re_bullet Let_def)
qed

lemma processLines_foldl: "processLines isText ls st = Inr (foldl (step isText) st ls)"
  by (induction ls arbitrary: st) (simp_all add: processLine_Some)

lemma convertTextToMarkdown_total:
  "convertTextToMarkdown text isText =
     Inr (join (if isText then [] else str ''<br/>'')
            (outputLines (flush (foldl (step isText) init_pstate (inputLines_of text)))))"
  by (simp add: convertTextToMarkdown_def processLines_foldl processLine_None)

lemma flush_liLines [simp]: "liLines (flush st) = []"
  by (simp add: flush_def)

lemma flush_outputLines:
  "outputLines (flush st) = outputLines st @ map (\<lambda>li. liSpaces st @ bullet_glyph @ str '' '' @ li) (liLines st)"
  by (simp add: flush_def)

lemma idle_clean_init [simp]: "idle_clean init_pstate"
  by (simp add: idle_clean_def init_pstate_def)

lemma idle_clean_step: "idle_clean st \<Longrightarrow> idle_clean (step isText st l)"
  by (simp add: idle_clean_def step_def collect_def emit_def flush_def Let_def)

lemma idle_clean_foldl: "idle_clean st \<Longrightarrow> idle_clean (foldl (step isText) st ls)"
  by (induction ls arbitrary: st) (simp_all add: idle_clean_step)

lemma flush_liSpaces: "idle_clean st \<Longrightarrow> liSpaces (flush st) = []"
  by (simp add: idle_clean_def flush_def)

lemma foldl_step_bullets:
  assumes "\<forall>l \<in> set bs. is_bullet (convertLineToMarkdown l)"
  shows "outputLines (foldl (step isText) st bs) = outputLines st \<and>
         liLines (foldl (step isText) st bs) =
           liLines st @ map (\<lambda>l. tl (dropWhile is_space (convertLineToMarkdown l))) bs"
  using assms
proof (induction bs arbitrary: st)
  case Nil
  show ?case by simp
next
  case (Cons l bs)
  then have b: "is_bullet (convertLineToMarkdown l)" by simp
  have "outputLines (step isText st l) = outputLines st"
    and "liLines (step isText st l) = liLines st @ [tl (dropWhile is_space (convertLineToMarkdown l))]"
    using b by (simp_all add: step_def collect_def Let_def)
  then show ?case using Cons.IH [of "step isText st l"] Cons.prems by simp
qed

lemma example_lines:
  "inputLines_of (str ''* a'' @ [LF] @ str ''* b'' @ [LF] @ str ''c'') = [str ''* a'', str ''* b'', str ''c'']"
  by code_simp

lemma example_grouped:
  "processLines False [str ''* a'', str ''* b'', str ''c''] init_pstate =
     Inr \<lparr>outputLines = [bullet_glyph @ str ''  a'', bullet_glyph @ str ''  b'', str ''c''],
          liLines = [], liSpaces = []\<rparr>"
  by code_simp

lemma example_text:
  "convertTextToMarkdown (str ''* a'' @ [LF] @ str ''* b'' @ [LF] @ str ''c'') False =
     Inr (bullet_glyph @ str ''  a<br/>'' @ bullet_glyph @ str ''  b<br/>c'')"
  by code_simp

lemma terminal_flush:
  "\<exists>st st'. processLines isText (inputLines_of text) init_pstate = Inr st \<and>
     processLine isText None st = Inr st' \<and> liLines st' = [] \<and> liSpaces st' = [] \<and>
     outputLines st' =
       outputLines st @ map (\<lambda>li. liSpaces st @ bullet_glyph @ str '' '' @ li) (liLines st) \<and>
     convertTextToMarkdown text isText =
       Inr (if isText then join [] (outputLines st') else join (str ''<br/>'') (outputLines st'))"
proof -
  let ?st = "foldl (step isText) init_pstate (inputLines_of text)"
  have "idle_clean ?st" by (simp add: idle_clean_foldl)
  then have "liSpaces (flush ?st) = []" by (rule flush_liSpaces)
  then show ?thesis
    by (intro exI [of _ ?st] exI [of _ "flush ?st"])
      (simp add: processLines_foldl processLine_None flush_outputLines convertTextToMarkdown_total)
qed

lemma trailing_run_flushed:
  assumes "\<forall>l \<in> set bs. is_bullet (convertLineToMarkdown l)"
  shows "\<exists>st st' out spaces. processLines isText (ls @ bs) init_pstate = Inr st \<and>
     processLine isText None st = Inr st' \<and> liLines st' = [] \<and>
     outputLines st' =
       out @ map (\<lambda>l. spaces @ bullet_glyph @ str '' '' @
                      tl (dropWhile is_space (convertLineToMarkdown l))) bs"
proof -
  let ?sp = "foldl (step isText) init_pstate ls"
  let ?st = "foldl (step isText) ?sp bs"
  have st: "processLines isText (ls @ bs) init_pstate = Inr ?st"
    by (simp add: processLines_foldl)
  have "outputLines (flush ?st) =
          (outputLines ?sp @ map (\<lambda>li. liSpaces ?st @ bullet_glyph @ str '' '' @ li) (liLines ?sp)) @
          map (\<lambda>l. liSpaces ?st @ bullet_glyph @ str '' '' @
                   tl (dropWhile is_space (convertLineToMarkdown l))) bs"
    using foldl_step_bullets [OF assms, of isText ?sp] by (simp add: flush_outputLines comp_def)
  then show ?thesis
    using st
    by (intro exI [of _ ?st] exI [of _ "flush ?st"]
        exI [of _ "outputLines ?sp @ map (\<lambda>li. liSpaces ?st @ bullet_glyph @ str '' '' @ li) (liLines ?sp)"]
        exI [of _ "liSpaces ?st"])
      (simp add: processLine_None)
qed


text \<open>
  C5: for a field that is not a text item, the lines \<open>* a\<close>, \<open>* b\<close>, \<open>c\<close> give the
  two entries of the list, each behind the bullet glyph, and then the entry \<open>c\<close>. For
  every input the call at the end of the input empties the buffer and emits one entry
  for each buffered line; when the input ends in bullet lines, the output ends in
  their entries.
\<close>

theorem bullet_grouping:
  "convertTextToMarkdown (str ''* a'' @ [LF] @ str ''* b'' @ [LF] @ str ''c'') False =
     Inr (bullet_glyph @ str ''  a<br/>'' @ bullet_glyph @ str ''  b<br/>c'') \<and>
   inputLines_of (str ''* a'' @ [LF] @ str ''* b'' @ [LF] @ str ''c'') =
     [str ''* a'', str ''* b'', str ''c''] \<and>
   processLines False [str ''* a'', str ''* b'', str ''c''] init_pstate =
     Inr \<lparr>outputLines = [bullet_glyph @ str ''  a'', bullet_glyph @ str ''  b'', str ''c''],
          liLines = [], liSpaces = []\<rparr> \<and>
   (\<exists>st st'. processLines isText (inputLines_of text) init_pstate = Inr st \<and>
     processLine isText None st = Inr st' \<and> liLines st' = [] \<and> liSpaces st' = [] \<and>
     outputLines st' =
       outputLines st @ map (\<lambda>li. liSpaces st @ bullet_glyph @ str '' '' @ li) (liLines st) \<and>
     convertTextToMarkdown text isText =
       Inr (if isText then join [] (outputLines st') else join (str ''<br/>'') (outputLines st'))) \<and>
   ((\<forall>l \<in> set bs. is_bullet (convertLineToMarkdown l)) \<longrightarrow>
    (\<exists>st st' out spaces. processLines isText (ls @ bs) init_pstate = Inr st \<and>
      processLine isText None st = Inr st' \<and> liLines st' = [] \<and>
      outputLines st' =
        out @ map (\<lambda>l. spaces @ bullet_glyph @ str '' '' @
                       tl (dropWhile is_space (convertLineToMarkdown l))) bs))"
  using example_text example_lines example_grouped terminal_flush [of isText "text"]
    trailing_run_flushed [of bs isText ls]
  by (intro conjI impI)

theorem bullet_grouping_witness:
  "is_bullet (convertLineToMarkdown (str ''* a'')) \<and>
   (\<exists>st st' out spaces. processLines False [str ''c'', str ''* a''] init_pstate = Inr st \<and>
      processLine False None st = Inr st' \<and> liLines st' = [] \<and>
      outputLines st' = out @ [spaces @ bullet_glyph @ str '' '' @ str '' a''])"
proof -
  have b: "is_bullet (convertLineToMarkdown (str ''* a''))" by code_simp
  have c: "tl (dropWhile is_space (convertLineToMarkdown (str ''* a''))) = str '' a''" by code_simp
  from bullet_grouping [of False "[]" "[str ''* a'']" "[str ''c'']"] b
  have "\<exists>st st' out spaces. processLines False ([str ''c''] @ [str ''* a'']) init_pstate = Inr st \<and>
      processLine False None st = Inr st' \<and> liLines st' = [] \<and>
      outputLines st' =
        out @ map (\<lambda>l. spaces @ bullet_glyph @ str '' '' @
                       tl (dropWhile is_space (convertLineToMarkdown l))) [str ''* a'']"
    by simp
  then show ?thesis using b c by simp
qed

section \<open>Bullets and the rules that take asterisks\<close>

lemma replace_spans_Nil [simp]: "replace_spans fnd [] = []"
  by (simp add: replace_spans.simps)

lemma replace_spans_None: "fnd (ch # t) = None \<Longrightarrow> replace_spans fnd (ch # t) = ch # replace_spans fnd t"
  by (simp add: replace_spans.simps [of fnd "ch # t"])

lemma replace_spans_Some:
  "fnd s = Some m \<Longrightarrow> length (snd m) < length s \<Longrightarrow>
   replace_spans fnd s = fst m @ replace_spans fnd (snd m)"
proof (cases s)
  case Nil
  assume "length (snd m) < length s"
  then show ?thesis using Nil by simp
next
  case (Cons ch t)
  assume "fnd s = Some m" "length (snd m) < length s"
  then show ?thesis unfolding Cons by (simp add: replace_spans.simps [of fnd "ch # t"])
qed

lemma inline_rule_space: "inline_rule fnd \<Longrightarrow> is_space ch \<Longrightarrow> fnd (ch # t) = None"
  by (simp add: inline_rule_def)

lemma inline_rule_found:
  "inline_rule fnd \<Longrightarrow> fnd s = Some m \<Longrightarrow>
   length (snd m) < length s \<and> fst m \<noteq> [] \<and> \<not> is_space (hd (fst m)) \<and> hd (fst m) \<noteq> c_star"
  unfolding inline_rule_def by blast

lemma replace_spans_spaces:
  assumes "inline_rule fnd" and "\<forall>ch \<in> set ws. is_space ch"
  shows "replace_spans fnd (ws @ s) = ws @ replace_spans fnd s"
  using assms(2)
proof (induction ws)
  case Nil
  show ?case by simp
next
  case (Cons ch ws)
  then have "fnd (ch # ws @ s) = None" using inline_rule_space [OF assms(1)] by simp
  then show ?case using Cons by (simp add: replace_spans_None)
qed

lemma is_bullet_iff:
  "is_bullet s = (\<exists>ws rest. s = ws @ c_star # rest \<and> (\<forall>ch \<in> set ws. is_space ch))"
proof
  assume "is_bullet s"
  then have "s = takeWhile is_space s @ c_star # tl (dropWhile is_space s)"
    by (rule is_bullet_decomp)
  moreover have "\<forall>ch \<in> set (takeWhile is_space s). is_space ch"
    by (auto dest: set_takeWhileD)
  ultimately show "\<exists>ws rest. s = ws @ c_star # rest \<and> (\<forall>ch \<in> set ws. is_space ch)" by blast
next
  assume "\<exists>ws rest. s = ws @ c_star # rest \<and> (\<forall>ch \<in> set ws. is_space ch)"
  then obtain ws rest where s: "s = ws @ c_star # rest" and ws: "\<forall>ch \<in> set ws. is_space ch" by blast
  have "dropWhile is_space s = c_star # rest"
    unfolding s using ws by (simp add: dropWhile_append3)
  then show "is_bullet s" by (simp add: is_bullet_def)
qed

lemma bullet_parts:
  assumes "\<forall>ch \<in> set ws. is_space ch"
  shows "takeWhile is_space (ws @ c_star # rest) = ws"
    and "dropWhile is_space (ws @ c_star # rest) = c_star # rest"
  using assms by (simp_all add: takeWhile_append2 dropWhile_append3)

lemma spaces_then_other:
  assumes "\<forall>ch \<in> set ws. is_space ch" and "\<not> is_space x" and "x \<noteq> c_star"
  shows "\<not> is_bullet (ws @ x # t)"
proof -
  have "dropWhile is_space (ws @ x # t) = x # t"
    using assms by (simp add: dropWhile_append3)
  then show ?thesis using assms(3) by (simp add: is_bullet_def)
qed

lemma spaces_only:
  assumes "\<forall>ch \<in> set ws. is_space ch"
  shows "\<not> is_bullet ws"
proof -
  have "dropWhile is_space ws = []" using assms by simp
  then show ?thesis by (simp add: is_bullet_def del: dropWhile_eq_Nil_conv)
qed

text \<open>A rule never turns a line that is not a bullet into one.\<close>

lemma pass_keeps_no_bullet:
  assumes r: "inline_rule fnd" and n: "\<not> is_bullet s"
  shows "\<not> is_bullet (replace_spans fnd s)"
proof -
  let ?ws = "takeWhile is_space s" and ?t = "dropWhile is_space s"
  have ws: "\<forall>ch \<in> set ?ws. is_space ch" by (auto dest: set_takeWhileD)
  have s: "s = ?ws @ ?t" by simp
  have p: "replace_spans fnd s = ?ws @ replace_spans fnd ?t"
    using replace_spans_spaces [OF r ws, of ?t] by simp
  show ?thesis
  proof (cases ?t)
    case Nil
    have e: "replace_spans fnd s = ?ws" unfolding p Nil by simp
    show ?thesis unfolding e by (rule spaces_only [OF ws])
  next
    case (Cons x t')
    then have x: "\<not> is_space x" by (metis hd_dropWhile list.sel(1) list.simps(3))
    have xs: "x \<noteq> c_star" using n Cons by (auto simp: is_bullet_def)
    show ?thesis
    proof (cases "fnd (x # t')")
      case None
      then show ?thesis
        unfolding p Cons using spaces_then_other [OF ws x xs] by (simp add: replace_spans_None)
    next
      case (Some m)
      then have l: "length (snd m) < length (x # t')" and h: "fst m \<noteq> []"
        "\<not> is_space (hd (fst m))" "hd (fst m) \<noteq> c_star"
        using inline_rule_found [OF r Some] by simp_all
      obtain y ys where m: "fst m = y # ys" using h(1) by (cases "fst m") auto
      show ?thesis
        unfolding p Cons replace_spans_Some [of fnd "x # t'" m, OF Some l] m
        using spaces_then_other [OF ws, of y] h(2,3) m by simp
    qed
  qed
qed

text \<open>
  A rule that leaves a bullet leaves its white space and its marker as they are and
  works on the text behind the marker.
\<close>

lemma pass_on_bullet:
  assumes r: "inline_rule fnd" and b: "is_bullet (replace_spans fnd s)"
  shows "is_bullet s \<and>
         takeWhile is_space (replace_spans fnd s) = takeWhile is_space s \<and>
         tl (dropWhile is_space (replace_spans fnd s)) = replace_spans fnd (tl (dropWhile is_space s))"
proof -
  have bs: "is_bullet s" using pass_keeps_no_bullet [OF r] b by blast
  let ?ws = "takeWhile is_space s" and ?rest = "tl (dropWhile is_space s)"
  have ws: "\<forall>ch \<in> set ?ws. is_space ch" by (auto dest: set_takeWhileD)
  have s: "s = ?ws @ c_star # ?rest" using bs by (rule is_bullet_decomp)
  have p: "replace_spans fnd s = ?ws @ replace_spans fnd (c_star # ?rest)"
    using replace_spans_spaces [OF r ws, of "c_star # ?rest"] s by simp
  have "fnd (c_star # ?rest) = None"
  proof (rule ccontr)
    assume "fnd (c_star # ?rest) \<noteq> None"
    then obtain m where Some: "fnd (c_star # ?rest) = Some m" by auto
    then have l: "length (snd m) < length (c_star # ?rest)" and h: "fst m \<noteq> []"
      "\<not> is_space (hd (fst m))" "hd (fst m) \<noteq> c_star"
      using inline_rule_found [OF r Some] by simp_all
    obtain y ys where m: "fst m = y # ys" using h(1) by (cases "fst m") auto
    have "\<not> is_bullet (replace_spans fnd s)"
      unfolding p replace_spans_Some [of fnd "c_star # ?rest" m, OF Some l] m
      using spaces_then_other [OF ws, of y] h(2,3) m by simp
    then show False using b by simp
  qed
  then have "replace_spans fnd s = ?ws @ c_star # replace_spans fnd ?rest"
    unfolding p by (simp add: replace_spans_None)
  then show ?thesis using bs bullet_parts [OF ws] by simp
qed

lemma not_space_simps [simp]:
  "\<not> is_space c_underscore" "\<not> is_space c_tilde" "\<not> is_space c_lbracket"
  by (simp_all add: is_space_def c_underscore_def c_tilde_def c_lbracket_def)

lemma markup_head [simp]:
  "hd (str ''<u>'' @ x) = 0x3C" "hd (str ''<b>'' @ x) = 0x3C" "hd (str ''<em>'' @ x) = 0x3C"
  "hd (str ''<s>'' @ x) = 0x3C" "hd (str ''<a href='' @ x) = 0x3C"
  "str ''<u>'' \<noteq> []" "str ''<b>'' \<noteq> []" "str ''<em>'' \<noteq> []" "str ''<s>'' \<noteq> []"
  "str ''<a href='' \<noteq> []"
  by (simp_all add: str_def)

lemma lt_not_space [simp]: "\<not> is_space 0x3C" "(0x3C :: cu) \<noteq> c_star"
  by (simp_all add: is_space_def c_star_def)

lemma inline_rule_underline: "inline_rule find_underline"
  unfolding inline_rule_def find_underline_def
  by (auto simp: span_Cons dest: span_length)

lemma inline_rule_bold: "inline_rule find_bold"
  unfolding inline_rule_def find_bold_def
  by (auto simp: span_Cons dest: span_length)

lemma inline_rule_italic: "inline_rule find_italic"
  unfolding inline_rule_def find_italic_def
  by (auto simp: span_Cons dest: span_length)

lemma inline_rule_strike: "inline_rule find_strike"
  unfolding inline_rule_def find_strike_def
  by (auto simp: span_Cons dest: span_length)

lemma inline_rule_link: "inline_rule find_link"
proof -
  have "find_link (ch # t) = None" if "is_space ch" for ch t
    using that by (auto simp: find_link_def span_Cons)
  moreover have "length (snd m) < length s \<and> fst m \<noteq> [] \<and> \<not> is_space (hd (fst m)) \<and> hd (fst m) \<noteq> c_star"
    if "find_link s = Some m" for s m
  proof -
    have "\<exists>x. fst m = str ''<a href='' @ x"
      using that by (auto simp: find_link_def Let_def split: option.splits if_splits)
    then show ?thesis using find_link_length [OF that] by auto
  qed
  ultimately show ?thesis unfolding inline_rule_def by blast
qed

lemma inline_rule_unchecked: "inline_rule find_unchecked"
proof -
  have "find_unchecked (ch # t) = None" if "is_space ch" for ch t
    using that by (auto simp: find_unchecked_def str_simps  is_space_def)
  moreover have "length (snd m) < length s \<and> fst m \<noteq> [] \<and> \<not> is_space (hd (fst m)) \<and> hd (fst m) \<noteq> c_star"
    if "find_unchecked s = Some m" for s m
  proof -
    have "fst m = unchecked_glyph"
      using that by (auto simp: find_unchecked_def split: if_splits)
    then show ?thesis
      using find_unchecked_length [OF that] by (simp add: unchecked_glyph_def is_space_def c_star_def)
  qed
  ultimately show ?thesis unfolding inline_rule_def by blast
qed

lemma inline_rule_checked: "inline_rule find_checked"
proof -
  have "find_checked (ch # t) = None" if "is_space ch" for ch t
    using that by (auto simp: find_checked_def str_simps  is_space_def)
  moreover have "length (snd m) < length s \<and> fst m \<noteq> [] \<and> \<not> is_space (hd (fst m)) \<and> hd (fst m) \<noteq> c_star"
    if "find_checked s = Some m" for s m
  proof -
    have "fst m = checked_glyph"
      using that by (auto simp: find_checked_def split: if_splits)
    then show ?thesis
      using find_checked_length [OF that] by (simp add: checked_glyph_def is_space_def c_star_def)
  qed
  ultimately show ?thesis unfolding inline_rule_def by blast
qed


lemmas inline_rules =
  inline_rule_underline inline_rule_bold inline_rule_italic inline_rule_strike
  inline_rule_link inline_rule_unchecked inline_rule_checked

lemma convert_keeps_no_bullet:
  "\<not> is_bullet l \<Longrightarrow> \<not> is_bullet (convertLineToMarkdown l)"
  unfolding convertLineToMarkdown_rules
  by (intro pass_keeps_no_bullet inline_rules)

lemma convert_on_bullet:
  assumes "is_bullet (convertLineToMarkdown l)"
  shows "is_bullet l \<and>
         takeWhile is_space (convertLineToMarkdown l) = takeWhile is_space l \<and>
         tl (dropWhile is_space (convertLineToMarkdown l)) =
           convertLineToMarkdown (tl (dropWhile is_space l))"
proof -
  let ?p1 = "replace_spans find_underline l"
  let ?p2 = "replace_spans find_bold ?p1"
  let ?p3 = "replace_spans find_italic ?p2"
  let ?p4 = "replace_spans find_strike ?p3"
  let ?p5 = "replace_spans find_link ?p4"
  let ?p6 = "replace_spans find_unchecked ?p5"
  let ?p7 = "replace_spans find_checked ?p6"
  have b7: "is_bullet ?p7" using assms unfolding convertLineToMarkdown_rules .
  note s7 = pass_on_bullet [OF inline_rule_checked b7]
  note s6 = pass_on_bullet [OF inline_rule_unchecked conjunct1 [OF s7]]
  note s5 = pass_on_bullet [OF inline_rule_link conjunct1 [OF s6]]
  note s4 = pass_on_bullet [OF inline_rule_strike conjunct1 [OF s5]]
  note s3 = pass_on_bullet [OF inline_rule_italic conjunct1 [OF s4]]
  note s2 = pass_on_bullet [OF inline_rule_bold conjunct1 [OF s3]]
  note s1 = pass_on_bullet [OF inline_rule_underline conjunct1 [OF s2]]
  have "is_bullet l" using s1 by simp
  moreover have "takeWhile is_space ?p7 = takeWhile is_space l"
    using s1 s2 s3 s4 s5 s6 s7 by simp
  moreover have "tl (dropWhile is_space ?p7) =
      replace_spans find_checked (replace_spans find_unchecked (replace_spans find_link
       (replace_spans find_strike (replace_spans find_italic (replace_spans find_bold
         (replace_spans find_underline (tl (dropWhile is_space l))))))))"
    using s1 s2 s3 s4 s5 s6 s7 by simp
  ultimately show ?thesis unfolding convertLineToMarkdown_rules by simp
qed

lemma exec_re_bullet_iff: "(exec exact re_bullet p \<noteq> None) = is_bullet p"
  by (simp add: exec_re_bullet)

theorem bullet_marker_taken_by_italic:
  "exec exact re_bullet (str ''* a *b*'') \<noteq> None \<and>
   processLine False (Some (str ''* a *b*'')) init_pstate =
     Inr \<lparr>outputLines = [str ''<em> a </em>b*''], liLines = [], liSpaces = []\<rparr>"
  by code_simp

text \<open>
  C8, as amended: a line whose inline-transformed text matches the bullet pattern
  matches it itself, and the grouper buffers its content, which is the line without its
  white space and marker, inline-transformed; the prefix is kept when none is held. A
  line whose transformed text does not match the pattern is not buffered: it ends the
  list. A line that does not match the pattern does not match it transformed either, so
  an asterisk inside the line makes no bullet. (A line that matches the pattern is not a
  bullet when the bold or the italic rule takes its marker, as in \<open>* a *b*\<close>.)
\<close>

theorem bullet_lines_buffered:
  "(is_bullet (convertLineToMarkdown l) \<longrightarrow>
      is_bullet l \<and>
      processLine isText (Some l) st =
        Inr (st\<lparr>liLines := liLines st @ [convertLineToMarkdown (tl (dropWhile is_space l))],
                liSpaces := (if liSpaces st = [] then takeWhile is_space l else liSpaces st)\<rparr>)) \<and>
   (\<not> is_bullet (convertLineToMarkdown l) \<longrightarrow>
      (\<exists>st'. processLine isText (Some l) st = Inr st' \<and> liLines st' = [])) \<and>
   (\<not> is_bullet l \<longrightarrow> \<not> is_bullet (convertLineToMarkdown l)) \<and>
   (exec exact re_bullet p \<noteq> None) = is_bullet p"
proof (intro conjI impI)
  assume b: "is_bullet (convertLineToMarkdown l)"
  show "is_bullet l" using convert_on_bullet [OF b] by simp
  show "processLine isText (Some l) st =
        Inr (st\<lparr>liLines := liLines st @ [convertLineToMarkdown (tl (dropWhile is_space l))],
                liSpaces := (if liSpaces st = [] then takeWhile is_space l else liSpaces st)\<rparr>)"
    using convert_on_bullet [OF b] b by (simp add: processLine_Some step_def collect_def Let_def)
next
  assume "\<not> is_bullet (convertLineToMarkdown l)"
  then show "\<exists>st'. processLine isText (Some l) st = Inr st' \<and> liLines st' = []"
    by (simp add: processLine_Some step_def emit_def Let_def)
next
  assume "\<not> is_bullet l"
  then show "\<not> is_bullet (convertLineToMarkdown l)" by (rule convert_keeps_no_bullet)
next
  show "(exec exact re_bullet p \<noteq> None) = is_bullet p" by (rule exec_re_bullet_iff)
qed

theorem bullet_lines_buffered_witness:
  "is_bullet (convertLineToMarkdown (str ''  * a **b**'')) \<and>
   processLine True (Some (str ''  * a **b**'')) init_pstate =
     Inr \<lparr>outputLines = [], liLines = [str '' a <b>b</b>''], liSpaces = str ''  ''\<rparr> \<and>
   \<not> is_bullet (str ''a * b'') \<and> \<not> is_bullet (convertLineToMarkdown (str ''a * b'')) \<and>
   (\<exists>st'. processLine True (Some (str ''a * b'')) init_pstate = Inr st' \<and> liLines st' = [])"
proof -
  have b: "is_bullet (convertLineToMarkdown (str ''  * a **b**''))" by code_simp
  have c: "convertLineToMarkdown (tl (dropWhile is_space (str ''  * a **b**''))) = str '' a <b>b</b>''"
    by code_simp
  have w: "takeWhile is_space (str ''  * a **b**'') = str ''  ''" by code_simp
  have n: "\<not> is_bullet (str ''a * b'')" by code_simp
  from bullet_lines_buffered [of "str ''  * a **b**''" True init_pstate] b c w
  have 1: "processLine True (Some (str ''  * a **b**'')) init_pstate =
     Inr \<lparr>outputLines = [], liLines = [str '' a <b>b</b>''], liSpaces = str ''  ''\<rparr>"
    by (simp add: init_pstate_def)
  from bullet_lines_buffered [of "str ''a * b''" True init_pstate] n
  have 2: "\<not> is_bullet (convertLineToMarkdown (str ''a * b''))"
    and 3: "\<exists>st'. processLine True (Some (str ''a * b'')) init_pstate = Inr st' \<and> liLines st' = []"
    by simp_all
  show ?thesis using b 1 n 2 3 by (intro conjI)
qed

section \<open>The prefix of a list block\<close>

lemma liSpaces_run:
  assumes "\<forall>l \<in> set bs. is_bullet (convertLineToMarkdown l)"
  shows "liSpaces (foldl (step isText) st bs) =
           (if liSpaces st = [] then first_nonempty (map (takeWhile is_space) bs) else liSpaces st)"
  using assms
proof (induction bs arbitrary: st)
  case Nil
  show ?case by simp
next
  case (Cons l bs)
  then have b: "is_bullet (convertLineToMarkdown l)" by simp
  have "liSpaces (step isText st l) = (if liSpaces st = [] then takeWhile is_space l else liSpaces st)"
    using b convert_on_bullet [OF b] by (simp add: step_def collect_def Let_def)
  then show ?case using Cons.IH [of "step isText st l"] Cons.prems by simp
qed

text \<open>
  The entries of a list block share one prefix: the first prefix of the run that is not
  empty. It is the prefix of the first bullet line when that one is not empty, or when
  all are empty.
\<close>

lemma list_block_prefix:
  assumes "\<forall>l \<in> set bs. is_bullet (convertLineToMarkdown l)"
    and "liLines st = []" and "liSpaces st = []"
  shows "outputLines (flush (foldl (step isText) st bs)) =
           outputLines st @
           map (\<lambda>l. first_nonempty (map (takeWhile is_space) bs) @ bullet_glyph @ str '' '' @
                    convertLineToMarkdown (tl (dropWhile is_space l))) bs"
proof -
  have c: "map (\<lambda>l. tl (dropWhile is_space (convertLineToMarkdown l))) bs =
           map (\<lambda>l. convertLineToMarkdown (tl (dropWhile is_space l))) bs"
    using assms(1) convert_on_bullet by simp
  show ?thesis
    using foldl_step_bullets [OF assms(1), of isText st] liSpaces_run [OF assms(1), of isText st]
      assms(2,3) c
    by (simp add: flush_outputLines comp_def)
qed

text \<open>
  C9 fails on the code where the first bullet line of a run has no white space before
  its marker and a later one has: the later prefix is taken, for every entry.
\<close>

theorem prefix_captured_late:
  "processLines False [str ''* a'', str ''  * b''] init_pstate =
     Inr \<lparr>outputLines = [], liLines = [str '' a'', str '' b''], liSpaces = str ''  ''\<rparr> \<and>
   convertTextToMarkdown (str ''* a'' @ [LF] @ str ''  * b'') False =
     Inr (str ''  '' @ bullet_glyph @ str ''  a<br/>  '' @ bullet_glyph @ str ''  b'')"
  by code_simp

section \<open>The primary split\<close>

lemma canon_LF [simp]: "(canonicalize ch = canonicalize LF) = (ch = LF)"
  by (rule canonicalize_eq_nonletter) (simp_all add: LF_def)

lemma startsWith_i_LF: "startsWith_i s [LF] = startsWith s [LF]"
  by (cases s) (simp_all add: startsWith_i_Cons)

lemma startsWith_i_length: "startsWith_i s p \<Longrightarrow> length p \<le> length s"
  by (simp add: startsWith_i_def)

lemma startsWith_i_head:
  "startsWith_i s (x # xs) \<Longrightarrow> \<exists>ch s'. s = ch # s' \<and> canonicalize ch = canonicalize x"
  by (cases s) (simp_all add: startsWith_i_Cons)

lemma break_heads_differ:
  "canonicalize LF \<noteq> canonicalize 0x3C" "canonicalize LF \<noteq> canonicalize 0x26"
  "canonicalize (0x3C :: cu) \<noteq> canonicalize 0x26"
  by (simp_all add: canonicalize_def LF_def)

lemma run_break_alternatives:
  "run icase (Alt (lit [LF]) (Alt (lit (str ''<br>'')) (lit (str ''&nbsp;'')))) (s, c) =
     (case break_at s of None \<Rightarrow> [] | Some rest \<Rightarrow> [(rest, c)])"
proof -
  have l: "length (str ''<br>'') = 4" "length (str ''&nbsp;'') = 6" by (simp_all add: str_def)
  have x1: "\<not> startsWith_i s (str ''<br>'')" "\<not> startsWith_i s (str ''&nbsp;'')" if "startsWith s [LF]"
    using that break_heads_differ by (cases s; auto simp: startsWith_i_Cons str_simps)+
  have x2: "\<not> startsWith_i s (str ''&nbsp;'')" if "startsWith_i s (str ''<br>'')"
    using that break_heads_differ by (cases s) (auto simp: startsWith_i_Cons str_simps)
  show ?thesis
    using x1 x2
    by (auto simp: run_Alt run_lit_icase break_at_def startsWith_i_LF l)
qed

lemma break_at_shorter: "break_at s = Some rest \<Longrightarrow> length rest < length s"
  by (auto simp: break_at_def str_def split: if_splits
      dest!: startsWith_length startsWith_i_length)

lemma skip_breaks_unfold:
  "skip_breaks s = (case break_at s of None \<Rightarrow> s | Some rest \<Rightarrow> skip_breaks rest)"
  by (subst skip_breaks.simps) (auto split: option.splits dest: break_at_shorter)

lemma skip_breaks_length: "length (skip_breaks s) \<le> length s"
proof (induction s rule: length_induct)
  case (1 s)
  show ?case
  proof (cases "break_at s")
    case None
    then show ?thesis by (simp add: skip_breaks_unfold [of s])
  next
    case (Some rest)
    then have "length rest < length s" by (rule break_at_shorter)
    then show ?thesis using 1 Some by (simp add: skip_breaks_unfold [of s]) (meson le_trans less_imp_le)
  qed
qed

lemma break_at_skip_breaks [simp]: "break_at (skip_breaks s) = None"
proof (induction s rule: length_induct)
  case (1 s)
  show ?case
  proof (cases "break_at s")
    case None
    then show ?thesis by (simp add: skip_breaks_unfold [of s])
  next
    case (Some rest)
    then have "length rest < length s" by (rule break_at_shorter)
    then show ?thesis using 1 Some by (simp add: skip_breaks_unfold [of s])
  qed
qed

text \<open>The greedy repetition takes the longest run of breaks: each round has one way to go.\<close>

lemma run_re_breaks:
  "run icase re_breaks (s, c) =
     (case break_at s of
        None \<Rightarrow> []
      | Some rest \<Rightarrow> run icase re_breaks (rest, c) @ [(rest, c)])"
proof -
  define alts where "alts = Alt (lit [LF]) (Alt (lit (str ''<br>'')) (lit (str ''&nbsp;'')))"
  have a: "run icase alts (s, c) = (case break_at s of None \<Rightarrow> [] | Some rest \<Rightarrow> [(rest, c)])"
    for s and c :: "cu caps"
    unfolding alts_def by (rule run_break_alternatives)
  have "plus_greedy (run icase alts) (s, c) =
     (case break_at s of
        None \<Rightarrow> []
      | Some rest \<Rightarrow> plus_greedy (run icase alts) (rest, c) @ [(rest, c)])"
    by (subst plus_greedy.simps) (auto simp: a split: option.splits dest: break_at_shorter)
  then show ?thesis unfolding re_breaks_def run_Plus alts_def .
qed

lemma exec_re_breaks:
  "exec icase re_breaks s =
     (case break_at s of None \<Rightarrow> None | Some rest \<Rightarrow> Some (skip_breaks rest, Map.empty))"
proof -
  have "run icase re_breaks (s, c) = [] \<and> break_at s = None \<or>
        (\<exists>ys. run icase re_breaks (s, c) = (skip_breaks s, c) # ys \<and> break_at s \<noteq> None)" for c
  proof (induction s rule: length_induct)
    case (1 s)
    show ?case
    proof (cases "break_at s")
      case None
      then show ?thesis by (simp add: run_re_breaks [of s])
    next
      case (Some rest)
      then have "length rest < length s" by (rule break_at_shorter)
      then have "run icase re_breaks (rest, c) = [] \<and> break_at rest = None \<or>
        (\<exists>ys. run icase re_breaks (rest, c) = (skip_breaks rest, c) # ys \<and> break_at rest \<noteq> None)"
        using 1 by blast
      then show ?thesis
        using Some
        by (auto simp: run_re_breaks [of s] skip_breaks_unfold [of s] skip_breaks_unfold [of rest])
    qed
  qed
  from this [of Map.empty] show ?thesis
    by (auto simp: exec_def skip_breaks_unfold [of s] split: option.splits)
qed

lemma split_loop_breaks_Nil [simp]: "split_loop icase re_breaks cur [] = [cur]"
  by (simp add: split_loop.simps)

lemma split_loop_breaks_Cons:
  "split_loop icase re_breaks cur (ch # s) =
     (case break_at (ch # s) of
        None \<Rightarrow> split_loop icase re_breaks (cur @ [ch]) s
      | Some rest \<Rightarrow> cur # split_loop icase re_breaks [] (skip_breaks rest))"
proof (cases "break_at (ch # s)")
  case None
  then show ?thesis by (simp add: split_loop.simps [of _ _ cur "ch # s"] exec_re_breaks)
next
  case (Some rest)
  then have "length (skip_breaks rest) < length (ch # s)"
    using break_at_shorter [OF Some] skip_breaks_length [of rest] by simp
  then show ?thesis
    using Some by (simp add: split_loop.simps [of _ _ cur "ch # s"] exec_re_breaks)
qed

lemma primary_split_loop: "primary_split text = split_loop icase re_breaks [] text"
proof -
  have "break_at [] = None" by (simp add: break_at_def startsWith_i_def str_def)
  then show ?thesis by (simp add: primary_split_def split_def exec_re_breaks)
qed


lemma break_at_Nil [simp]: "break_at [] = None"
  by (simp add: break_at_def startsWith_i_def str_def)

lemma skip_breaks_Nil [simp]: "skip_breaks [] = []"
  by (simp add: skip_breaks_unfold [of "[]"])

lemma startsWith_append: "startsWith a p \<Longrightarrow> startsWith (a @ b) p"
  by (metis startsWith_def startsWith_length take_append append.right_neutral diff_is_0_eq take_0)

lemma startsWith_i_append: "startsWith_i a p \<Longrightarrow> startsWith_i (a @ b) p"
  by (simp add: startsWith_i_def)

lemma break_at_mono: "break_at a \<noteq> None \<Longrightarrow> break_at (a @ b) \<noteq> None"
  by (auto simp: break_at_def split: if_splits dest: startsWith_append startsWith_i_append)

lemma startsWith_take: "startsWith s p \<Longrightarrow> startsWith (take (length p) s @ x) p"
  by (simp add: startsWith_def)

lemma startsWith_i_take: "startsWith_i s p \<Longrightarrow> startsWith_i (take (length p) s @ x) p"
  by (simp add: startsWith_i_def)

lemma startsWith_same_head:
  "s \<noteq> [] \<Longrightarrow> 0 < n \<Longrightarrow> startsWith (take n s @ x) [a] = startsWith s [a]"
  by (cases s; cases n) simp_all

lemma startsWith_i_same_head:
  "s \<noteq> [] \<Longrightarrow> 0 < n \<Longrightarrow> startsWith_i (take n s @ x) (a # p) \<Longrightarrow>
   \<exists>ch s'. s = ch # s' \<and> canonicalize ch = canonicalize a"
  by (cases s; cases n) (simp_all add: startsWith_i_Cons)

text \<open>A break at the start of a text is a break before any other text.\<close>

lemma break_at_piece:
  assumes "break_at s = Some rest"
  shows "\<exists>d. d \<noteq> [] \<and> s = d @ rest \<and> (\<forall>x. break_at (d @ x) = Some x)"
proof -
  have l: "length (str ''<br>'') = 4" "length (str ''&nbsp;'') = 6" by (simp_all add: str_def)
  consider (lf) "startsWith s [LF]" "rest = drop 1 s"
    | (br) "\<not> startsWith s [LF]" "startsWith_i s (str ''<br>'')" "rest = drop 4 s"
    | (nb) "\<not> startsWith s [LF]" "\<not> startsWith_i s (str ''<br>'')"
        "startsWith_i s (str ''&nbsp;'')" "rest = drop 6 s"
    using assms by (auto simp: break_at_def split: if_splits)
  then show ?thesis
  proof cases
    case lf
    then obtain s' where s: "s = LF # s'" by (cases s) auto
    have "break_at ([LF] @ x) = Some x" for x by (simp add: break_at_def)
    then show ?thesis using s lf(2) by (intro exI [of _ "[LF]"]) simp
  next
    case br
    let ?d = "take 4 s"
    have len: "4 \<le> length s" using startsWith_i_length [OF br(2)] l by simp
    then have ne: "s \<noteq> []" by auto
    have "break_at (?d @ x) = Some x" for x
    proof -
      have "\<not> startsWith (?d @ x) [LF]" using br(1) startsWith_same_head [OF ne, of 4] by simp
      moreover have "startsWith_i (?d @ x) (str ''<br>'')"
        using startsWith_i_take [OF br(2), of x] l by simp
      ultimately show ?thesis using len by (simp add: break_at_def)
    qed
    moreover have "?d \<noteq> []" using ne by simp
    ultimately show ?thesis using br(3) by (intro exI [of _ ?d]) simp
  next
    case nb
    let ?d = "take 6 s"
    have len: "6 \<le> length s" using startsWith_i_length [OF nb(3)] l by simp
    then have ne: "s \<noteq> []" by auto
    have "break_at (?d @ x) = Some x" for x
    proof -
      have "\<not> startsWith (?d @ x) [LF]" using nb(1) startsWith_same_head [OF ne, of 6] by simp
      moreover have "\<not> startsWith_i (?d @ x) (str ''<br>'')"
      proof
        assume "startsWith_i (?d @ x) (str ''<br>'')"
        moreover have "str ''<br>'' = 0x3C # str ''br>''" by (simp add: str_simps)
        ultimately have "startsWith_i (?d @ x) (0x3C # str ''br>'')" by simp
        from startsWith_i_same_head [OF ne zero_less_numeral this]
        obtain ch s' where c: "s = ch # s'" "canonicalize ch = canonicalize 0x3C" by blast
        moreover have "canonicalize ch = canonicalize 0x26"
          using nb(3) c(1) by (simp add: str_simps startsWith_i_Cons)
        ultimately show False using break_heads_differ(3) by simp
      qed
      moreover have "startsWith_i (?d @ x) (str ''&nbsp;'')"
        using startsWith_i_take [OF nb(3), of x] l by simp
      ultimately show ?thesis using len by (simp add: break_at_def)
    qed
    moreover have "?d \<noteq> []" using ne by simp
    ultimately show ?thesis using nb(4) by (intro exI [of _ ?d]) simp
  qed
qed

text \<open>What the regular expression takes at an index is a run of breaks and nothing else.\<close>

lemma skip_breaks_run:
  "\<exists>r. s = r @ skip_breaks s \<and> skip_breaks r = [] \<and> (break_at s \<noteq> None \<longrightarrow> r \<noteq> [])"
proof (induction s rule: length_induct)
  case (1 s)
  show ?case
  proof (cases "break_at s")
    case None
    then show ?thesis by (intro exI [of _ "[]"]) (simp add: skip_breaks_unfold [of s])
  next
    case (Some rest)
    then obtain d where d: "d \<noteq> []" "s = d @ rest" "\<And>x. break_at (d @ x) = Some x"
      using break_at_piece by blast
    have "length rest < length s" using Some by (rule break_at_shorter)
    then obtain r where r: "rest = r @ skip_breaks rest" "skip_breaks r = []"
      using 1 by blast
    have "skip_breaks (d @ r) = []"
      using d(3) [of r] r(2) by (simp add: skip_breaks_unfold [of "d @ r"])
    moreover have "s = (d @ r) @ skip_breaks s"
    proof -
      have "skip_breaks s = skip_breaks rest" using Some by (simp add: skip_breaks_unfold [of s])
      moreover have "s = d @ r @ skip_breaks rest" using d(2) r(1) by simp
      ultimately show ?thesis by simp
    qed
    ultimately show ?thesis using d(1) by (intro exI [of _ "d @ r"]) simp
  qed
qed

lemma clean_before_snoc:
  "clean_before cur (ch # s) \<Longrightarrow> break_at (ch # s) = None \<Longrightarrow> clean_before (cur @ [ch]) s"
  by (induction cur) simp_all

lemma clean_before_no_break: "clean_before cur s \<Longrightarrow> \<not> has_break cur"
proof (induction cur)
  case Nil
  show ?case by simp
next
  case (Cons ch cur)
  then have "break_at ((ch # cur) @ s) = None" by simp
  then have "break_at (ch # cur) = None" using break_at_mono [of "ch # cur" s] by blast
  then show ?case using Cons by simp
qed

lemma split_loop_breaks_spec:
  assumes "clean_before cur s"
  shows "\<exists>seps. length seps + 1 = length (split_loop icase re_breaks cur s) \<and>
           weave (split_loop icase re_breaks cur s) seps = cur @ s \<and>
           (\<forall>sep \<in> set seps. is_break_run sep) \<and>
           (\<forall>l \<in> set (split_loop icase re_breaks cur s). \<not> has_break l)"
  using assms
proof (induction s arbitrary: cur rule: length_induct)
  case (1 s)
  show ?case
  proof (cases s)
    case Nil
    then show ?thesis
      using clean_before_no_break [OF "1.prems"] by (intro exI [of _ "[]"]) simp
  next
    case (Cons ch s')
    show ?thesis
    proof (cases "break_at s")
      case None
      then have "clean_before (cur @ [ch]) s'"
        using "1.prems" Cons clean_before_snoc by simp
      moreover have "length s' < length s" using Cons by simp
      ultimately obtain seps where
        "length seps + 1 = length (split_loop icase re_breaks (cur @ [ch]) s')"
        "weave (split_loop icase re_breaks (cur @ [ch]) s') seps = (cur @ [ch]) @ s'"
        "\<forall>sep \<in> set seps. is_break_run sep"
        "\<forall>l \<in> set (split_loop icase re_breaks (cur @ [ch]) s'). \<not> has_break l"
        using "1.IH" by blast
      then show ?thesis
        using Cons None by (intro exI [of _ seps]) (simp add: split_loop_breaks_Cons)
    next
      case (Some rest)
      let ?t = "skip_breaks rest"
      have t: "skip_breaks s = ?t" using Some by (simp add: skip_breaks_unfold [of s])
      obtain r where r: "s = r @ ?t" "skip_breaks r = []" "r \<noteq> []"
        using skip_breaks_run [of s] Some t by auto
      have "length ?t < length s" using r(1,3) by (metis length_append length_greater_0_conv less_add_same_cancel2)
      moreover have "clean_before [] ?t" by simp
      ultimately obtain seps where seps:
        "length seps + 1 = length (split_loop icase re_breaks [] ?t)"
        "weave (split_loop icase re_breaks [] ?t) seps = ?t"
        "\<forall>sep \<in> set seps. is_break_run sep"
        "\<forall>l \<in> set (split_loop icase re_breaks [] ?t). \<not> has_break l"
        using "1.IH" by (metis append_Nil)
      have L: "split_loop icase re_breaks cur s = cur # split_loop icase re_breaks [] ?t"
        using Some Cons by (simp add: split_loop_breaks_Cons)
      have "is_break_run r" using r(2,3) by (simp add: is_break_run_def)
      moreover have "\<not> has_break cur" using "1.prems" by (rule clean_before_no_break)
      moreover have "weave (cur # split_loop icase re_breaks [] ?t) (r # seps) = cur @ s"
        using seps(2) r(1) by simp
      ultimately show ?thesis
        unfolding L using seps by (intro exI [of _ "r # seps"]) simp
    qed
  qed
qed

lemma split_loop_breaks_nonempty: "split_loop icase re_breaks cur s \<noteq> []"
proof (induction s arbitrary: cur rule: length_induct)
  case (1 s)
  show ?case
  proof (cases s)
    case Nil
    then show ?thesis by simp
  next
    case (Cons ch s')
    then show ?thesis using 1 by (simp add: split_loop_breaks_Cons split: option.splits)
  qed
qed

text \<open>Between two separators there is text: only the first and the last line can be empty.\<close>

lemma split_loop_breaks_inner:
  assumes "cur \<noteq> [] \<or> break_at s = None"
  shows "\<forall>l \<in> set (butlast (split_loop icase re_breaks cur s)). l \<noteq> []"
  using assms
proof (induction s arbitrary: cur rule: length_induct)
  case (1 s)
  show ?case
  proof (cases s)
    case Nil
    then show ?thesis by simp
  next
    case (Cons ch s')
    show ?thesis
    proof (cases "break_at s")
      case None
      have "length s' < length s" using Cons by simp
      moreover have "cur @ [ch] \<noteq> [] \<or> break_at s' = None" by simp
      ultimately have "\<forall>l \<in> set (butlast (split_loop icase re_breaks (cur @ [ch]) s')). l \<noteq> []"
        using "1.IH" by blast
      then show ?thesis using None Cons by (simp add: split_loop_breaks_Cons)
    next
      case (Some rest)
      let ?t = "skip_breaks rest"
      have c: "cur \<noteq> []" using "1.prems" Some by simp
      have "length ?t < length s"
        using break_at_shorter [OF Some] skip_breaks_length [of rest] by simp
      moreover have "[] \<noteq> ([] :: jsstring) \<or> break_at ?t = None" by simp
      ultimately have "\<forall>l \<in> set (butlast (split_loop icase re_breaks [] ?t)). l \<noteq> []"
        using "1.IH" by blast
      then show ?thesis
        using Some Cons c split_loop_breaks_nonempty [of "[]" ?t]
        by (simp add: split_loop_breaks_Cons)
    qed
  qed
qed

lemma primary_split_inner: "\<forall>l \<in> set (butlast (tl (primary_split text))). l \<noteq> []"
proof (cases "text")
  case Nil
  then show ?thesis by (simp add: primary_split_loop)
next
  case (Cons ch s')
  show ?thesis
  proof (cases "break_at text")
    case None
    then have "\<forall>l \<in> set (butlast (primary_split text)). l \<noteq> []"
      unfolding primary_split_loop using split_loop_breaks_inner by blast
    then show ?thesis by (metis butlast_tl in_set_butlastD list.sel(2) list.set_sel(2) in_set_butlast_appendI append_butlast_last_id)
  next
    case (Some rest)
    then have "primary_split text = [] # split_loop icase re_breaks [] (skip_breaks rest)"
      unfolding primary_split_loop Cons by (simp add: split_loop_breaks_Cons)
    then show ?thesis using split_loop_breaks_inner [of "[]" "skip_breaks rest"] by simp
  qed
qed


text \<open>
  C6: the primary split cuts the text at the runs of breaks. The text is the lines with
  a separator between each two; every separator is one or more breaks (line feed,
  \<open><br>\<close>, \<open>&nbsp;\<close>) one after the other and nothing else, and it is what the
  regular expression takes at that index; no line contains a break; and no line between
  two separators is empty, so that breaks that follow each other never give an empty
  line. (The first line is empty when the text starts with a break, the last line when
  it ends with one.)
\<close>

theorem primary_split_collapses:
  "(\<exists>seps. length seps + 1 = length (primary_split text) \<and>
      weave (primary_split text) seps = text \<and> (\<forall>sep \<in> set seps. is_break_run sep)) \<and>
   (\<forall>l \<in> set (primary_split text). \<not> has_break l) \<and>
   (\<forall>l \<in> set (butlast (tl (primary_split text))). l \<noteq> []) \<and>
   exec icase re_breaks s =
     (case break_at s of None \<Rightarrow> None | Some rest \<Rightarrow> Some (skip_breaks rest, Map.empty))"
proof -
  have "clean_before [] text" by simp
  from split_loop_breaks_spec [OF this]
  show ?thesis
    using primary_split_inner [of "text"] exec_re_breaks [of s]
    unfolding primary_split_loop by auto
qed

theorem primary_split_collapses_witness:
  "primary_split (str ''a'' @ [LF] @ str ''<BR>&nbsp;b'' @ [LF]) = [str ''a'', str ''b'', []] \<and>
   (\<exists>seps. length seps = 2 \<and>
      weave [str ''a'', str ''b'', []] seps = str ''a'' @ [LF] @ str ''<BR>&nbsp;b'' @ [LF] \<and>
      list_all is_break_run seps) \<and>
   \<not> has_break (str ''a'') \<and> \<not> has_break (str ''b'')"
proof -
  let ?x = "str ''a'' @ [LF] @ str ''<BR>&nbsp;b'' @ [LF]"
  have e: "primary_split ?x = [str ''a'', str ''b'', []]" by code_simp
  from primary_split_collapses [of ?x "[]"]
  show ?thesis unfolding e by (auto simp: list_all_iff numeral_2_eq_2)
qed

section \<open>The fallback split\<close>

text \<open>The lazy \<open>+\<close> on one atom: one code unit first, the longest run last.\<close>

lemma run_PlusLazy_Atom:
  "run test (PlusLazy (Atom a)) (s, c) =
     map (\<lambda>n. (drop n s, c)) [1..<Suc (length (takeWhile (test a) s))]"
proof (induction s)
  case Nil
  show ?case by (simp add: run_PlusLazy plus_lazy.simps)
next
  case (Cons ch s)
  show ?case
  proof (cases "test a ch")
    case False
    then show ?thesis by (simp add: run_PlusLazy plus_lazy.simps)
  next
    case True
    let ?k = "length (takeWhile (test a) s)"
    have "run test (PlusLazy (Atom a)) (ch # s, c) = (s, c) # run test (PlusLazy (Atom a)) (s, c)"
      using True by (simp add: run_PlusLazy plus_lazy.simps [of _ "(ch # s, c)"])
    also have "\<dots> = (s, c) # map (\<lambda>n. (drop n s, c)) [1..<Suc ?k]"
      by (simp only: Cons.IH)
    also have "\<dots> = map (\<lambda>n. (drop n (ch # s), c)) [1..<Suc (Suc ?k)]"
    proof -
      have "[1..<Suc (Suc ?k)] = 1 # map Suc [1..<Suc ?k]"
        by (metis One_nat_def map_Suc_upt upt_conv_Cons zero_less_Suc Suc_less_eq)
      then show ?thesis by (simp add: comp_def)
    qed
    finally show ?thesis using True by simp
  qed
qed

lemma icase_Dot: "icase Dot = (\<lambda>ch. \<not> is_line_terminator ch)"
  by (rule ext) simp

lemma lazy_paragraph:
  "(case concat (map (\<lambda>n. run icase (lit (str ''</p>'')) (drop n s, cap (pre @ take n s)))
            [1..<Suc (length (takeWhile (\<lambda>ch. \<not> is_line_terminator ch) s))]) of
      [] \<Rightarrow> None | y # _ \<Rightarrow> Some y) =
   (case paragraph_end s of None \<Rightarrow> None | Some m \<Rightarrow> Some (snd m, cap (pre @ fst m)))"
proof (induction s arbitrary: pre)
  case Nil
  show ?case by simp
next
  case (Cons ch s)
  let ?k = "length (takeWhile (\<lambda>ch. \<not> is_line_terminator ch) s)"
  let ?F = "\<lambda>t pre n. run icase (lit (str ''</p>'')) (drop n t, cap (pre @ take n t))"
  show ?case
  proof (cases "is_line_terminator ch")
    case True
    then show ?thesis by simp
  next
    case False
    have k: "length (takeWhile (\<lambda>ch. \<not> is_line_terminator ch) (ch # s)) = Suc ?k"
      using False by simp
    have u: "[1..<Suc (Suc ?k)] = 1 # map Suc [1..<Suc ?k]"
      by (metis One_nat_def map_Suc_upt upt_conv_Cons zero_less_Suc Suc_less_eq)
    have l4: "length (str ''</p>'') = 4" by (simp add: str_def)
    have f1: "?F (ch # s) pre 1 =
        (if startsWith_i s (str ''</p>'') then [(drop 4 s, cap (pre @ [ch]))] else [])"
      by (simp add: run_lit_icase l4)
    have lhs: "concat (map (?F (ch # s) pre) [1..<Suc (Suc ?k)]) =
          ?F (ch # s) pre 1 @ concat (map (?F s (pre @ [ch])) [1..<Suc ?k])"
      unfolding u by (simp add: comp_def)
    show ?thesis
    proof (cases "startsWith_i s (str ''</p>'')")
      case True
      have "concat (map (?F (ch # s) pre) [1..<Suc (Suc ?k)]) =
            (drop 4 s, cap (pre @ [ch])) # concat (map (?F s (pre @ [ch])) [1..<Suc ?k])"
        unfolding lhs f1 using True by simp
      moreover have "paragraph_end (ch # s) = Some ([ch], drop 4 s)"
        using False True by simp
      ultimately show ?thesis unfolding k by (simp only: list.case option.case fst_conv snd_conv)
    next
      case n: False
      have "concat (map (?F (ch # s) pre) [1..<Suc (Suc ?k)]) =
            concat (map (?F s (pre @ [ch])) [1..<Suc ?k])"
        unfolding lhs f1 using n by simp
      moreover have "paragraph_end (ch # s) =
          (case paragraph_end s of None \<Rightarrow> None | Some m \<Rightarrow> Some (ch # fst m, snd m))"
        using False n by simp
      moreover have "(case (case paragraph_end s of None \<Rightarrow> None | Some m \<Rightarrow> Some (ch # fst m, snd m)) of
                        None \<Rightarrow> None | Some m \<Rightarrow> Some (snd m, cap (pre @ fst m))) =
                     (case paragraph_end s of None \<Rightarrow> None
                      | Some m \<Rightarrow> Some (snd m, cap ((pre @ [ch]) @ fst m)))"
        by (cases "paragraph_end s") simp_all
      ultimately show ?thesis
        unfolding k using Cons.IH [of "pre @ [ch]"] by (simp only:)
    qed
  qed
qed

lemma run_paragraph_body:
  "run icase (Seq (Grp g (PlusLazy (Atom Dot))) (lit (str ''</p>''))) (t, c) =
     concat (map (\<lambda>n. run icase (lit (str ''</p>'')) (drop n t, (\<lambda>x. c(g \<mapsto> x)) ([] @ take n t)))
       [1..<Suc (length (takeWhile (\<lambda>ch. \<not> is_line_terminator ch) t))])"
proof -
  let ?k = "length (takeWhile (\<lambda>ch. \<not> is_line_terminator ch) t)"
  have m: "map (\<lambda>n. run icase (lit (str ''</p>''))
               (drop n t, c(g \<mapsto> take (length t - length (drop n t)) t))) [1..<Suc ?k] =
        map (\<lambda>n. run icase (lit (str ''</p>'')) (drop n t, (\<lambda>x. c(g \<mapsto> x)) ([] @ take n t)))
          [1..<Suc ?k]"
  proof (rule map_cong [OF refl])
    fix n assume "n \<in> set [1..<Suc ?k]"
    then have "n \<le> length t"
      using length_takeWhile_le [of "\<lambda>ch. \<not> is_line_terminator ch" t] by auto
    then have "length t - length (drop n t) = n" by simp
    then show "run icase (lit (str ''</p>''))
               (drop n t, c(g \<mapsto> take (length t - length (drop n t)) t)) =
          run icase (lit (str ''</p>'')) (drop n t, (\<lambda>x. c(g \<mapsto> x)) ([] @ take n t))" by simp
  qed
  have "run icase (Seq (Grp g (PlusLazy (Atom Dot))) (lit (str ''</p>''))) (t, c) =
        concat (map (\<lambda>n. run icase (lit (str ''</p>''))
               (drop n t, c(g \<mapsto> take (length t - length (drop n t)) t))) [1..<Suc ?k])"
    by (simp add: run_Seq run_Grp run_PlusLazy_Atom icase_Dot comp_def del: upt_Suc)
  then show ?thesis unfolding m .
qed

lemma exec_re_paragraph:
  "exec icase re_paragraph s =
     (if startsWith_i s (str ''<p>'')
      then (case paragraph_end (drop 3 s) of None \<Rightarrow> None
            | Some m \<Rightarrow> Some (snd m, [1 \<mapsto> fst m]))
      else None)"
proof (cases "startsWith_i s (str ''<p>'')")
  case False
  then show ?thesis
    by (simp add: exec_def re_paragraph_def run_Seq [of _ "lit (str ''<p>'')"] run_lit_icase)
next
  case True
  have l: "length (str ''<p>'') = 3" by (simp add: str_def)
  have "run icase re_paragraph (s, Map.empty) =
        run icase (Seq (Grp 1 (PlusLazy (Atom Dot))) (lit (str ''</p>''))) (drop 3 s, Map.empty)"
    using True by (simp add: re_paragraph_def run_Seq [of _ "lit (str ''<p>'')"] run_lit_icase l)
  then show ?thesis
    unfolding exec_def run_paragraph_body
    using lazy_paragraph [of "drop 3 s" "\<lambda>x. [1 \<mapsto> x]" "[]"] True
    by (simp only: if_True append_Nil)
qed


lemma exec_re_closing:
  "exec icase re_closing s =
     (if startsWith_i s (str ''</ol>'') \<or> startsWith_i s (str ''</ul>'') \<or>
         startsWith_i s (str ''</li>'')
      then Some (drop 5 s, [1 \<mapsto> take 5 s]) else None)"
proof -
  have l: "length (str ''</ol>'') = 5" "length (str ''</ul>'') = 5" "length (str ''</li>'') = 5"
    by (simp_all add: str_def)
  have "length s - (length s - 5) = 5" if "5 \<le> length s"
    using that by simp
  then show ?thesis
    using startsWith_i_length [of s "str ''</ol>''"] startsWith_i_length [of s "str ''</ul>''"]
      startsWith_i_length [of s "str ''</li>''"]
    by (auto simp: exec_def re_closing_def run_Grp run_Alt run_lit_icase l)
qed

lemma subst_G_T [simp]: "subst [G n, T b] [n \<mapsto> g] = g @ b"
  by (simp add: subst_def)

lemma find_paragraph_exec:
  "map_option (\<lambda>y. (subst [G 1, T [LF]] (snd y), fst y)) (exec icase re_paragraph s) =
     find_paragraph s"
  by (simp add: exec_re_paragraph find_paragraph_def split: option.splits)

lemma find_closing_exec:
  "map_option (\<lambda>y. (subst [G 1, T [LF]] (snd y), fst y)) (exec icase re_closing s) =
     find_closing s"
  by (simp add: exec_re_closing find_closing_def)

lemma paragraph_end_length: "paragraph_end s = Some m \<Longrightarrow> length (snd m) < length s"
proof (induction s arbitrary: m)
  case Nil
  then show ?case by simp
next
  case (Cons ch s)
  show ?case
  proof (cases "startsWith_i s (str ''</p>'')")
    case True
    then show ?thesis using Cons.prems by (auto split: if_splits)
  next
    case False
    then obtain m' where "paragraph_end s = Some m'" "snd m = snd m'"
      using Cons.prems by (auto split: if_splits option.splits)
    then show ?thesis using Cons.IH [of m'] by simp
  qed
qed

lemma find_paragraph_length: "find_paragraph s = Some m \<Longrightarrow> length (snd m) < length s"
proof -
  assume "find_paragraph s = Some m"
  then obtain m' where "paragraph_end (drop 3 s) = Some m'" "snd m = snd m'"
    by (auto simp: find_paragraph_def split: if_splits option.splits)
  then show ?thesis using paragraph_end_length [of "drop 3 s" m'] by simp
qed

lemma find_closing_length: "find_closing s = Some m \<Longrightarrow> length (snd m) < length s"
  by (auto simp: find_closing_def str_def split: if_splits dest!: startsWith_i_length)

lemma strip_paragraphs_replaceAll:
  "replaceAll icase re_paragraph [G 1, T [LF]] s = strip_paragraphs s"
  unfolding strip_paragraphs_def
  by (rule replaceAll_eq_replace_spans [OF find_paragraph_exec find_paragraph_length])

lemma break_after_closing_replaceAll:
  "replaceAll icase re_closing [G 1, T [LF]] s = break_after_closing s"
  unfolding break_after_closing_def
  by (rule replaceAll_eq_replace_spans [OF find_closing_exec find_closing_length])

lemma exec_re_lf:
  "exec exact re_lf s =
     (case s of [] \<Rightarrow> None | ch # s' \<Rightarrow> if ch = LF then Some (s', Map.empty) else None)"
  by (cases s) (simp_all add: exec_def re_lf_def)

lemma split_loop_lf_Nil [simp]: "split_loop exact re_lf cur [] = [cur]"
  by (simp add: split_loop.simps)

lemma split_loop_lf_Cons:
  "split_loop exact re_lf cur (ch # s) =
     (if ch = LF then cur # split_loop exact re_lf [] s
      else split_loop exact re_lf (cur @ [ch]) s)"
  by (simp add: split_loop.simps [of _ _ cur "ch # s"] exec_re_lf)

lemma split_lf_loop: "split exact re_lf s = split_loop exact re_lf [] s"
  by (simp add: split_def exec_re_lf)

lemma split_loop_lf_nonempty: "split_loop exact re_lf cur s \<noteq> []"
  by (induction s arbitrary: cur) (simp_all add: split_loop_lf_Cons)

lemma join_Cons: "ls \<noteq> [] \<Longrightarrow> join sep (l # ls) = l @ sep @ join sep ls"
  by (cases ls) simp_all

text \<open>Splitting on the line feed drops nothing: the line feeds put back give the text.\<close>

lemma join_split_loop_lf: "join [LF] (split_loop exact re_lf cur s) = cur @ s"
  by (induction s arbitrary: cur)
    (simp_all add: split_loop_lf_Cons join_Cons split_loop_lf_nonempty)

lemma split_loop_lf_lines:
  "LF \<notin> set cur \<Longrightarrow> \<forall>l \<in> set (split_loop exact re_lf cur s). LF \<notin> set l"
proof (induction s arbitrary: cur)
  case Nil
  then show ?case by simp
next
  case (Cons ch s)
  show ?case
  proof (cases "ch = LF")
    case True
    then show ?thesis using Cons.IH [of "[]"] Cons.prems by (simp add: split_loop_lf_Cons)
  next
    case False
    then have "LF \<notin> set (cur @ [ch])" using Cons.prems by auto
    then show ?thesis using Cons.IH [of "cur @ [ch]"] False by (simp add: split_loop_lf_Cons)
  qed
qed

lemma primary_split_single:
  assumes "length (primary_split text) = 1"
  shows "primary_split text = [text]"
proof -
  have "clean_before [] text" by simp
  from split_loop_breaks_spec [OF this]
  obtain seps where seps: "length seps + 1 = length (primary_split text)"
    "weave (primary_split text) seps = text"
    unfolding primary_split_loop by auto
  obtain l where l: "primary_split text = [l]"
    using assms by (cases "primary_split text") auto
  have "seps = []" using seps(1) assms by simp
  then show ?thesis using seps(2) l by simp
qed

lemma fallback_split_spec:
  "fallback_split line \<noteq> [] \<and>
   join [LF] (fallback_split line) = break_after_closing (strip_paragraphs line) \<and>
   (\<forall>l \<in> set (fallback_split line). LF \<notin> set l)"
  unfolding fallback_split_def strip_paragraphs_replaceAll break_after_closing_replaceAll
    split_lf_loop
  using split_loop_lf_nonempty [of "[]"] join_split_loop_lf [of "[]"] split_loop_lf_lines [of "[]"]
  by simp

theorem empty_paragraph_not_stripped:
  "primary_split (str ''<p>a</p><p></p><p>b</p>'') = [str ''<p>a</p><p></p><p>b</p>''] \<and>
   replaceAll icase re_paragraph [G 1, T [LF]] (str ''<p>a</p><p></p><p>b</p>'') =
     str ''a'' @ [LF] @ str ''</p><p>b'' @ [LF] \<and>
   inputLines_of (str ''<p>a</p><p></p><p>b</p>'') = [str ''a'', str ''</p><p>b'', []]"
  by code_simp

text \<open>
  C7, as amended: when the primary split gives one line, the lines are those of the
  fallback. From the left, each \<open><p>X</p>\<close> where \<open>X\<close> is the shortest text behind
  \<open><p>\<close> that is not empty, has no line terminator and is followed by \<open></p>\<close> is
  replaced with \<open>X\<close> and a line feed; then a line feed is put behind every closing list
  and list-item tag; then the text is split at the line feeds. The lines are in the
  order of the text and none is dropped, the empty ones included: joined with line feeds
  they give the text that was split. (A \<open><p>\<close> directly before \<open></p>\<close> is not a
  paragraph of its own, as in \<open><p>a</p><p></p><p>b</p>\<close>.) When the primary split
  gives another number of lines, the lines are its lines.
\<close>

theorem fallback_lines:
  "(length (primary_split text) = 1 \<longrightarrow>
      inputLines_of text \<noteq> [] \<and>
      join [LF] (inputLines_of text) = break_after_closing (strip_paragraphs text) \<and>
      (\<forall>l \<in> set (inputLines_of text). LF \<notin> set l)) \<and>
   (length (primary_split text) \<noteq> 1 \<longrightarrow> inputLines_of text = primary_split text) \<and>
   replaceAll icase re_paragraph [G 1, T [LF]] s = strip_paragraphs s \<and>
   replaceAll icase re_closing [G 1, T [LF]] s = break_after_closing s"
proof (intro conjI impI)
  assume one: "length (primary_split text) = 1"
  then have "inputLines_of text = fallback_split text"
    using primary_split_single [OF one] by (simp add: inputLines_of_def)
  then show "inputLines_of text \<noteq> []"
    "join [LF] (inputLines_of text) = break_after_closing (strip_paragraphs text)"
    "\<forall>l \<in> set (inputLines_of text). LF \<notin> set l"
    using fallback_split_spec [of "text"] by simp_all
next
  assume "length (primary_split text) \<noteq> 1"
  then show "inputLines_of text = primary_split text" by (simp add: inputLines_of_def Let_def)
next
  show "replaceAll icase re_paragraph [G 1, T [LF]] s = strip_paragraphs s"
    by (rule strip_paragraphs_replaceAll)
  show "replaceAll icase re_closing [G 1, T [LF]] s = break_after_closing s"
    by (rule break_after_closing_replaceAll)
qed

theorem fallback_lines_witness:
  "length (primary_split (str ''<p>a</p><ul><li>b</li></ul>'')) = 1 \<and>
   inputLines_of (str ''<p>a</p><ul><li>b</li></ul>'') = [str ''a'', str ''<ul><li>b</li>'', str ''</ul>'', []] \<and>
   join [LF] (inputLines_of (str ''<p>a</p><ul><li>b</li></ul>'')) =
     break_after_closing (strip_paragraphs (str ''<p>a</p><ul><li>b</li></ul>'')) \<and>
   length (primary_split (str ''a'' @ [LF] @ str ''b'')) \<noteq> 1 \<and>
   inputLines_of (str ''a'' @ [LF] @ str ''b'') = [str ''a'', str ''b'']"
proof -
  have 1: "length (primary_split (str ''<p>a</p><ul><li>b</li></ul>'')) = 1" by code_simp
  have 2: "inputLines_of (str ''<p>a</p><ul><li>b</li></ul>'') =
     [str ''a'', str ''<ul><li>b</li>'', str ''</ul>'', []]" by code_simp
  have 3: "length (primary_split (str ''a'' @ [LF] @ str ''b'')) \<noteq> 1" by code_simp
  have 4: "primary_split (str ''a'' @ [LF] @ str ''b'') = [str ''a'', str ''b'']" by code_simp
  from fallback_lines [of "str ''<p>a</p><ul><li>b</li></ul>''" "[]"] 1
  have 5: "join [LF] (inputLines_of (str ''<p>a</p><ul><li>b</li></ul>'')) =
     break_after_closing (strip_paragraphs (str ''<p>a</p><ul><li>b</li></ul>''))" by simp
  from fallback_lines [of "str ''a'' @ [LF] @ str ''b''" "[]"] 3 4
  have 6: "inputLines_of (str ''a'' @ [LF] @ str ''b'') = [str ''a'', str ''b'']" by simp
  show ?thesis using 1 2 3 5 6 by (intro conjI)
qed

section \<open>Two runs of the matcher, side by side\<close>

lemma list_all2_concat:
  "list_all2 (list_all2 A) xss yss \<Longrightarrow> list_all2 A (concat xss) (concat yss)"
  by (induction xss yss rule: list_all2_induct) (simp_all add: list_all2_appendI)

lemma list_all2_concat_map:
  assumes "list_all2 B xs ys" and "\<And>x y. B x y \<Longrightarrow> list_all2 A (f x) (g y)"
  shows "list_all2 A (concat (map f xs)) (concat (map g ys))"
  using assms(1)
  by (induction xs ys rule: list_all2_induct) (simp_all add: list_all2_appendI assms(2))

lemma rel_state_length: "rel_state R x y \<Longrightarrow> length (fst x) = length (fst y)"
  unfolding rel_state_def by (blast dest: list_all2_lengthD)

lemma plus_greedy_rel:
  assumes f: "\<And>x y. rel_state R x y \<Longrightarrow> list_all2 (rel_state R) (f1 x) (f2 y)"
  shows "rel_state R x y \<Longrightarrow> list_all2 (rel_state R) (plus_greedy f1 x) (plus_greedy f2 y)"
proof (induction "length (fst x)" arbitrary: x y rule: less_induct)
  case less
  have "list_all2 (rel_state R)
          (concat (map (\<lambda>x'. (if length (fst x') < length (fst x) then plus_greedy f1 x' else []) @ [x']) (f1 x)))
          (concat (map (\<lambda>y'. (if length (fst y') < length (fst y) then plus_greedy f2 y' else []) @ [y']) (f2 y)))"
  proof (rule list_all2_concat_map [OF f [OF less.prems]])
    fix x' y' assume r: "rel_state R x' y'"
    have l: "length (fst x') = length (fst y')" "length (fst x) = length (fst y)"
      using r less.prems by (simp_all add: rel_state_length)
    show "list_all2 (rel_state R)
            ((if length (fst x') < length (fst x) then plus_greedy f1 x' else []) @ [x'])
            ((if length (fst y') < length (fst y) then plus_greedy f2 y' else []) @ [y'])"
      using less.hyps [of x' y'] r l by (auto intro: list_all2_appendI)
  qed
  then show ?case by (simp add: plus_greedy.simps [of f1 x] plus_greedy.simps [of f2 y])
qed

lemma plus_lazy_rel:
  assumes f: "\<And>x y. rel_state R x y \<Longrightarrow> list_all2 (rel_state R) (f1 x) (f2 y)"
  shows "rel_state R x y \<Longrightarrow> list_all2 (rel_state R) (plus_lazy f1 x) (plus_lazy f2 y)"
proof (induction "length (fst x)" arbitrary: x y rule: less_induct)
  case less
  have "list_all2 (rel_state R)
          (concat (map (\<lambda>x'. x' # (if length (fst x') < length (fst x) then plus_lazy f1 x' else [])) (f1 x)))
          (concat (map (\<lambda>y'. y' # (if length (fst y') < length (fst y) then plus_lazy f2 y' else [])) (f2 y)))"
  proof (rule list_all2_concat_map [OF f [OF less.prems]])
    fix x' y' assume r: "rel_state R x' y'"
    have l: "length (fst x') = length (fst y')" "length (fst x) = length (fst y)"
      using r less.prems by (simp_all add: rel_state_length)
    show "list_all2 (rel_state R)
            (x' # (if length (fst x') < length (fst x) then plus_lazy f1 x' else []))
            (y' # (if length (fst y') < length (fst y) then plus_lazy f2 y' else []))"
      using less.hyps [of x' y'] r l by auto
  qed
  then show ?case by (simp add: plus_lazy.simps [of f1 x] plus_lazy.simps [of f2 y])
qed

text \<open>
  When the atoms of the pattern cannot tell two texts apart, the matcher goes the same
  way on both.
\<close>

lemma run_rel:
  assumes "\<And>a x y. a \<in> atoms r \<Longrightarrow> R x y \<Longrightarrow> test1 a x = test2 a y"
  shows "rel_state R x y \<Longrightarrow> list_all2 (rel_state R) (run test1 r x) (run test2 r y)"
  using assms
proof (induction r arbitrary: x y)
  case Eps
  then show ?case by (simp add: run_Eps)
next
  case (Atom a)
  obtain s c where x: "x = (s, c)" by (cases x)
  obtain s' c' where y: "y = (s', c')" by (cases y)
  from Atom.prems(1) have l: "list_all2 R s s'" and c: "\<forall>n. rel_option (list_all2 R) (c n) (c' n)"
    by (simp_all add: rel_state_def x y)
  show ?case
  proof (cases s)
    case Nil
    then show ?thesis using l by (simp add: x y)
  next
    case (Cons ch t)
    then obtain ch' t' where s': "s' = ch' # t'" "R ch ch'" "list_all2 R t t'"
      using l by (auto simp: list_all2_Cons1)
    have "test1 a ch = test2 a ch'" using Atom.prems(2) s'(2) by simp
    then show ?thesis using Cons s' c by (simp add: x y rel_state_def)
  qed
next
  case (Seq a b)
  have a: "list_all2 (rel_state R) (run test1 a x) (run test2 a y)"
    using Seq.IH(1) [OF Seq.prems(1)] Seq.prems(2) by simp
  show ?case
    unfolding run_Seq
    by (rule list_all2_concat_map [OF a]) (use Seq.IH(2) Seq.prems(2) in simp)
next
  case (Alt a b)
  show ?case
    unfolding run_Alt
    using Alt.IH(1) [OF Alt.prems(1)] Alt.IH(2) [OF Alt.prems(1)] Alt.prems(2)
    by (simp add: list_all2_appendI)
next
  case (Plus a)
  show ?case
    unfolding run_Plus
    by (rule plus_greedy_rel [OF _ Plus.prems(1)]) (use Plus.IH Plus.prems(2) in simp)
next
  case (PlusLazy a)
  show ?case
    unfolding run_PlusLazy
    by (rule plus_lazy_rel [OF _ PlusLazy.prems(1)]) (use PlusLazy.IH PlusLazy.prems(2) in simp)
next
  case (Grp n a)
  have a: "list_all2 (rel_state R) (run test1 a x) (run test2 a y)"
    using Grp.IH [OF Grp.prems(1)] Grp.prems(2) by simp
  have "rel_state R (fst x', (snd x')(n \<mapsto> take (length (fst x) - length (fst x')) (fst x)))
                    (fst y', (snd y')(n \<mapsto> take (length (fst y) - length (fst y')) (fst y)))"
    if "rel_state R x' y'" for x' y'
    using that Grp.prems(1) rel_state_length [OF that] rel_state_length [OF Grp.prems(1)]
    by (simp add: rel_state_def list_all2_takeI)
  then show ?case
    unfolding run_Grp using a by (simp add: list_all2_map1 list_all2_map2 list_all2_mono)
qed

lemma exec_rel:
  assumes "\<And>a x y. a \<in> atoms r \<Longrightarrow> R x y \<Longrightarrow> test1 a x = test2 a y" and "list_all2 R s s'"
  shows "rel_option (rel_state R) (exec test1 r s) (exec test2 r s')"
proof -
  have "rel_state R (s, Map.empty) (s', Map.empty)" using assms(2) by (simp add: rel_state_def)
  from run_rel [of r R test1 test2, OF assms(1) this]
  show ?thesis
    unfolding exec_def by (cases "run test1 r (s, Map.empty)"; cases "run test2 r (s', Map.empty)") auto
qed

lemma subst_rel:
  assumes "list_all2 (rel_tpart R) t1 t2" and "\<forall>n. rel_option (list_all2 R) (c1 n) (c2 n)"
  shows "list_all2 R (subst t1 c1) (subst t2 c2)"
  unfolding subst_def
proof (rule list_all2_concat_map [OF assms(1)])
  fix p q assume pq: "rel_tpart R p q"
  show "list_all2 R (case p of T s \<Rightarrow> s | G n \<Rightarrow> (case c1 n of None \<Rightarrow> [] | Some g \<Rightarrow> g))
                    (case q of T s \<Rightarrow> s | G n \<Rightarrow> (case c2 n of None \<Rightarrow> [] | Some g \<Rightarrow> g))"
  proof (cases p)
    case (T s)
    then show ?thesis using pq by (cases q) simp_all
  next
    case (G n)
    then have q: "q = G n" using pq by (cases q) simp_all
    have "rel_option (list_all2 R) (c1 n) (c2 n)" using assms(2) by simp
    then show ?thesis unfolding G q by (cases "c1 n"; cases "c2 n") simp_all
  qed
qed

lemma rel_state_mono:
  assumes "\<And>x y. R x y \<Longrightarrow> R' x y" and "rel_state R x y"
  shows "rel_state R' x y"
proof -
  have l: "list_all2 R a b \<Longrightarrow> list_all2 R' a b" for a b
    by (rule list_all2_mono) (use assms(1) in blast)+
  have "rel_option (list_all2 R) a b \<Longrightarrow> rel_option (list_all2 R') a b" for a b
    using l by (cases a; cases b) simp_all
  then show ?thesis using assms(2) l unfolding rel_state_def by blast
qed

text \<open>
  A pass of \<open>replaceAll\<close> on two texts that the atoms of the pattern cannot tell apart
  replaces the same places; the results agree as far as the templates do.
\<close>

lemma replaceAll_rel:
  assumes tests: "\<And>a x y. a \<in> atoms r \<Longrightarrow> R x y \<Longrightarrow> test1 a x = test2 a y"
    and sub: "\<And>x y. R x y \<Longrightarrow> R' x y"
    and t: "list_all2 (rel_tpart R') t1 t2"
  shows "list_all2 R s1 s2 \<Longrightarrow>
         list_all2 R' (replaceAll test1 r t1 s1) (replaceAll test2 r t2 s2)"
proof (induction "length s1" arbitrary: s1 s2 rule: less_induct)
  case less
  have len: "length s1 = length s2" using less.prems by (rule list_all2_lengthD)
  have e: "rel_option (rel_state R) (exec test1 r s1) (exec test2 r s2)"
    using tests less.prems by (rule exec_rel)
  have tails: "list_all2 R' (case s1 of [] \<Rightarrow> [] | ch # s' \<Rightarrow> ch # replaceAll test1 r t1 s')
                            (case s2 of [] \<Rightarrow> [] | ch # s' \<Rightarrow> ch # replaceAll test2 r t2 s')"
  proof (cases s1)
    case Nil
    then show ?thesis using less.prems by simp
  next
    case (Cons ch s')
    then obtain ch' s'' where s2: "s2 = ch' # s''" "R ch ch'" "list_all2 R s' s''"
      using less.prems by (auto simp: list_all2_Cons1)
    have "list_all2 R' (replaceAll test1 r t1 s') (replaceAll test2 r t2 s'')"
      using less.hyps [of s' s''] s2(3) Cons by simp
    then show ?thesis using Cons s2 sub by simp
  qed
  show ?case
  proof (cases "exec test1 r s1")
    case None
    then have "exec test2 r s2 = None" using e by (cases "exec test2 r s2") simp_all
    then show ?thesis
      using None tails by (simp add: replaceAll.simps [of test1 r t1 s1] replaceAll.simps [of test2 r t2 s2])
  next
    case (Some y1)
    then obtain y2 where y2: "exec test2 r s2 = Some y2" "rel_state R y1 y2"
      using e by (cases "exec test2 r s2") simp_all
    have r': "rel_state R' y1 y2" using sub y2(2) by (rule rel_state_mono)
    have s: "list_all2 R' (subst t1 (snd y1)) (subst t2 (snd y2))"
      using t r' by (intro subst_rel) (simp_all add: rel_state_def)
    have l: "length (fst y1) = length (fst y2)" using y2(2) by (rule rel_state_length)
    show ?thesis
    proof (cases "length (fst y1) < length s1")
      case True
      have "list_all2 R' (replaceAll test1 r t1 (fst y1)) (replaceAll test2 r t2 (fst y2))"
        using less.hyps [of "fst y1" "fst y2"] True y2(2) by (simp add: rel_state_def)
      then show ?thesis
        using Some y2(1) True l len s
        by (simp add: replaceAll.simps [of test1 r t1 s1] replaceAll.simps [of test2 r t2 s2]
            list_all2_appendI)
    next
      case False
      then show ?thesis
        using Some y2(1) l len s tails
        by (simp add: replaceAll.simps [of test1 r t1 s1] replaceAll.simps [of test2 r t2 s2]
            list_all2_appendI)
    qed
  qed
qed

text \<open>The marks change nothing: without them the marked transformer is the source's.\<close>

lemma rel_tpart_mark: "list_all2 (rel_tpart (\<lambda>m ch. fst m = ch)) (mark_template k t) t"
proof -
  have h: "rel_tpart (\<lambda>m ch. fst m = ch) (case p of T s \<Rightarrow> T (map (\<lambda>ch. (ch, k)) s) | G n \<Rightarrow> G n) p" for p
    by (cases p) (simp_all add: list_all2_map1 list.rel_refl)
  show ?thesis unfolding mark_template_def list_all2_map1 list_all2_same using h by blast
qed

lemma replaceAll_lenient:
  assumes "list_all2 (\<lambda>m ch. fst m = ch) ms s"
  shows "list_all2 (\<lambda>m ch. fst m = ch)
           (replaceAll (lenient k) r (mark_template k t) ms) (replaceAll icase r t s)"
  by (rule replaceAll_rel [OF _ _ rel_tpart_mark assms]) (simp_all add: lenient_def)

lemma convertLine_marked_lenient:
  "unmark (convertLine_marked lenient (from_input text)) = convertLineToMarkdown text"
proof -
  have "list_all2 (\<lambda>m ch. fst m = ch) (from_input text) text"
    by (simp add: from_input_def list_all2_map1 list.rel_refl)
  then have "list_all2 (\<lambda>m ch. fst m = ch)
      (convertLine_marked lenient (from_input text)) (convertLineToMarkdown text)"
    unfolding convertLine_marked_def convertLineToMarkdown_def
    by (intro replaceAll_lenient)
  then show ?thesis
    unfolding unmark_def by (simp add: list_all2_conv_all_nth list_eq_iff_nth_eq)
qed

section \<open>Inserted text and the pattern characters\<close>

lemma list_all2_eq_pred: "list_all2 (\<lambda>x y. x = y \<and> P x) xs ys = (xs = ys \<and> (\<forall>x \<in> set xs. P x))"
proof (induction xs arbitrary: ys)
  case Nil
  show ?case by auto
next
  case (Cons x xs)
  show ?case by (cases ys) (auto simp: Cons)
qed

text \<open>What holds of every code unit of the text holds of what the matcher hands back.\<close>

lemma exec_keeps:
  assumes "\<forall>m \<in> set s. P m" and "exec test r s = Some y"
  shows "(\<forall>m \<in> set (fst y). P m) \<and> (\<forall>n g. snd y n = Some g \<longrightarrow> (\<forall>m \<in> set g. P m))"
proof -
  have "list_all2 (\<lambda>x y. x = y \<and> P x) s s" using assms(1) by (simp add: list_all2_eq_pred)
  from exec_rel [of r "\<lambda>x y. x = y \<and> P x" test test, OF _ this]
  have "rel_state (\<lambda>x y. x = y \<and> P x) y y" using assms(2) by simp
  then have 1: "\<forall>m \<in> set (fst y). P m" and 2: "\<forall>n. rel_option (list_all2 (\<lambda>x y. x = y \<and> P x)) (snd y n) (snd y n)"
    by (simp_all add: rel_state_def list_all2_eq_pred)
  have "\<forall>m \<in> set g. P m" if "snd y n = Some g" for n g
    using 2 [rule_format, of n] that by (simp add: list_all2_eq_pred)
  then show ?thesis using 1 by blast
qed

lemma replaceAll_keeps:
  assumes "\<forall>m \<in> set s. P m" and "\<forall>ch \<in> set (template_text t). P (ch, k)"
  shows "\<forall>m \<in> set (replaceAll test r (mark_template k t) s). P m"
proof -
  have s: "list_all2 (\<lambda>x y. x = y \<and> P x) s s" using assms(1) by (simp add: list_all2_eq_pred)
  have "rel_tpart (\<lambda>x y. x = y \<and> P x) (case p of T s \<Rightarrow> T (map (\<lambda>ch. (ch, k)) s) | G n \<Rightarrow> G n)
          (case p of T s \<Rightarrow> T (map (\<lambda>ch. (ch, k)) s) | G n \<Rightarrow> G n)" if "p \<in> set t" for p
  proof (cases p)
    case (T x)
    then have "set x \<subseteq> set (template_text t)" using that by (auto simp: template_text_def)
    then show ?thesis using T assms(2) by (auto simp: list_all2_eq_pred)
  next
    case (G n)
    then show ?thesis by simp
  qed
  then have t: "list_all2 (rel_tpart (\<lambda>x y. x = y \<and> P x)) (mark_template k t) (mark_template k t)"
    by (simp add: mark_template_def list_all2_same)
  from replaceAll_rel [of r "\<lambda>x y. x = y \<and> P x" test test "\<lambda>x y. x = y \<and> P x", OF _ _ t s]
  show ?thesis by (simp add: list_all2_eq_pred)
qed

text \<open>Two readings of the atoms that agree on every code unit of the text give one result.\<close>

lemma replaceAll_agree:
  assumes "\<forall>m \<in> set s. \<forall>a \<in> atoms r. test1 a m = test2 a m"
  shows "replaceAll test1 r t s = replaceAll test2 r t s"
proof -
  let ?R = "\<lambda>x y. x = y \<and> (\<forall>a \<in> atoms r. test1 a x = test2 a x)"
  have s: "list_all2 ?R s s" using assms by (simp add: list_all2_eq_pred)
  have t: "list_all2 (rel_tpart (=)) t t" by (simp add: tpart.rel_eq list.rel_eq)
  from replaceAll_rel [of r ?R test1 test2 "(=)", OF _ _ t s]
  show ?thesis by (simp add: list.rel_eq)
qed

lemma atoms_lit: "atoms (lit xs) = Chr ` set xs"
  by (induction xs) (auto simp: lit.simps)

lemma markup_no_pattern_char:
  "list_all (\<lambda>u. list_all (\<lambda>x. canonicalize u \<noteq> canonicalize x)
      [c_underscore, c_star, c_tilde, c_lbracket, c_rbracket, c_lparen, c_rparen, 0x78])
    markup_units"
  by code_simp

lemma markup_not_pattern:
  assumes "u \<in> set markup_units"
    and "x \<in> set [c_underscore, c_star, c_tilde, c_lbracket, c_rbracket, c_lparen, c_rparen, 0x78]"
  shows "canonicalize u \<noteq> canonicalize x"
  using markup_no_pattern_char assms unfolding list_all_iff by blast

text \<open>
  Where the pattern characters of a rule are none of the inserted code units, the rule
  reads the text as the source does, also when it is careful.
\<close>

lemma careful_agrees:
  assumes s: "\<forall>m \<in> set s. inserted_ok j sp m" and j: "j < k"
    and r: "\<forall>x. Chr x \<in> atoms r \<longrightarrow>
        x \<in> set [c_underscore, c_star, c_tilde, c_lbracket, c_rbracket, c_lparen, c_rparen, 0x78]"
  shows "replaceAll (careful k) r t s = replaceAll (lenient k) r t s"
proof (rule replaceAll_agree, intro ballI)
  fix m a assume m: "m \<in> set s" and a: "a \<in> atoms r"
  have ok: "inserted_ok j sp m" using s m by blast
  then have k: "snd m \<noteq> k" using j unfolding inserted_ok_def by linarith
  show "careful k a m = lenient k a m"
  proof (cases a)
    case (Chr x)
    have x: "x \<in> set [c_underscore, c_star, c_tilde, c_lbracket, c_rbracket, c_lparen, c_rparen, 0x78]"
      using r a Chr by blast
    have "snd m = 0" if i: "icase (Chr x) (fst m)"
    proof (rule ccontr)
      assume "snd m \<noteq> 0"
      then have "fst m \<in> set markup_units" using ok unfolding inserted_ok_def by blast
      then have "canonicalize (fst m) \<noteq> canonicalize x" using x by (rule markup_not_pattern)
      then show False using i by simp
    qed
    then show ?thesis using k unfolding Chr careful_def lenient_def by auto
  next
    case (NotChr x)
    then show ?thesis using k by (simp add: careful_def lenient_def)
  next
    case Dot
    then show ?thesis using k by (simp add: careful_def lenient_def)
  next
    case Space
    then show ?thesis using k by (simp add: careful_def lenient_def)
  qed
qed

lemma template_markup:
  "set (template_text t_underline) \<subseteq> set markup_units"
  "set (template_text t_bold) \<subseteq> set markup_units"
  "set (template_text t_italic) \<subseteq> set markup_units"
  "set (template_text t_strike) \<subseteq> set markup_units"
  "set (template_text t_link) \<subseteq> set markup_units"
  "set (template_text t_unchecked) \<subseteq> set markup_units"
  "set (template_text t_checked) \<subseteq> set markup_units"
  unfolding markup_units_def by (simp_all add: subset_iff)

lemma template_no_space:
  "0x20 \<notin> set (template_text t_underline)" "0x20 \<notin> set (template_text t_bold)"
  "0x20 \<notin> set (template_text t_italic)" "0x20 \<notin> set (template_text t_strike)"
  by (simp_all add: template_text_def t_underline_def t_bold_def t_italic_def t_strike_def str_def)

lemma atoms_rules:
  "atoms re_underline = {Chr c_underscore, NotChr c_underscore}"
  "atoms re_bold = {Chr c_star, NotChr c_star}"
  "atoms re_italic = {Chr c_star, NotChr c_star}"
  "atoms re_strike = {Chr c_tilde, NotChr c_tilde}"
  "atoms re_link = {Chr c_lbracket, NotChr c_rbracket, Chr c_rbracket, Chr c_lparen,
     NotChr c_rparen, Chr c_rparen}"
  by (auto simp: re_underline_def re_bold_def re_italic_def re_strike_def re_link_def)

lemma atoms_checked: "atoms re_checked = {Chr c_lbracket, Chr 0x78, Chr c_rbracket}"
  by (simp add: re_checked_def atoms_lit str_def c_lbracket_def c_rbracket_def insert_commute)


lemma pass_inserted_ok:
  assumes s: "\<forall>m \<in> set s. inserted_ok j sp m" and j: "j \<le> k"
    and t: "set (template_text t) \<subseteq> set markup_units"
    and sp: "sp' \<or> 0x20 \<notin> set (template_text t)" "sp \<longrightarrow> sp'"
  shows "\<forall>m \<in> set (replaceAll test r (mark_template k t) s). inserted_ok k sp' m"
proof (rule replaceAll_keeps)
  show "\<forall>m \<in> set s. inserted_ok k sp' m"
  proof
    fix m assume "m \<in> set s"
    then have "inserted_ok j sp m" using s by blast
    then show "inserted_ok k sp' m" using j sp(2) unfolding inserted_ok_def by auto
  qed
  show "\<forall>ch \<in> set (template_text t). inserted_ok k sp' (ch, k)"
    using t sp(1) unfolding inserted_ok_def by auto
qed

section \<open>The inserted space of the link template\<close>

lemma spaces_guarded_tl: "spaces_guarded (m # s) \<Longrightarrow> spaces_guarded s"
  by (cases s) simp_all

lemma spaces_guarded_drop: "spaces_guarded s \<Longrightarrow> spaces_guarded (drop n s)"
proof (induction n arbitrary: s)
  case 0
  then show ?case by simp
next
  case (Suc n)
  then show ?case by (cases s) (auto dest: spaces_guarded_tl)
qed

lemma guarded_Nil [simp]: "guarded []"
  by (simp add: guarded_def)

lemma spaces_guarded_append:
  assumes "spaces_guarded a" and "guarded b"
  shows "spaces_guarded (a @ b)"
  using assms(1)
proof (induction a rule: spaces_guarded.induct)
  case (1 m m' s)
  then show ?case by simp
next
  case "2_1"
  show ?case using assms(2) by (simp add: guarded_def)
next
  case "2_2"
  show ?case using assms(2) by (cases b) (auto simp: guarded_def)
qed

lemma guarded_append:
  assumes "guarded a" and "guarded b"
  shows "guarded (a @ b)"
proof (cases a)
  case Nil
  then show ?thesis using assms(2) by simp
next
  case (Cons m a')
  have "spaces_guarded (a @ b)"
    using assms by (intro spaces_guarded_append) (simp add: guarded_def)
  then show ?thesis using assms(1) Cons by (simp add: guarded_def)
qed

lemma guarded_no_space:
  assumes "\<forall>m \<in> set s. \<not> (fst m = 0x20 \<and> snd m \<noteq> 0)"
  shows "guarded s"
proof -
  have "spaces_guarded s" using assms
    by (induction s rule: spaces_guarded.induct) auto
  then show ?thesis using assms by (cases s) (auto simp: guarded_def)
qed

lemma guarded_subst:
  assumes "\<forall>p \<in> set t. \<forall>x. p = T x \<longrightarrow> guarded x" and "\<forall>n g. c n = Some g \<longrightarrow> guarded g"
  shows "guarded (subst t c)"
  using assms(1)
proof (induction t)
  case Nil
  show ?case by (simp add: subst_def)
next
  case (Cons p t)
  have "guarded (case p of T s \<Rightarrow> s | G n \<Rightarrow> (case c n of None \<Rightarrow> [] | Some g \<Rightarrow> g))"
  proof (cases p)
    case (T x)
    then show ?thesis using Cons.prems by simp
  next
    case (G n)
    then show ?thesis using assms(2) by (cases "c n") simp_all
  qed
  moreover have "guarded (subst t c)" using Cons by simp
  ultimately show ?case using guarded_append by (simp add: subst_def)
qed

lemma link_template_guarded:
  "\<forall>p \<in> set (mark_template 5 t_link). \<forall>x. p = T x \<longrightarrow> guarded x"
  by (simp add: mark_template_def t_link_def guarded_def str_def c_quote_def)

text \<open>Behind the link rule every inserted space is one of \<open><a href\<close>.\<close>

lemma link_pass_guarded:
  assumes "\<forall>m \<in> set s. \<not> (fst m = 0x20 \<and> snd m \<noteq> 0)"
  shows "guarded (replaceAll test re_link (mark_template 5 t_link) s)"
  using assms
proof (induction "length s" arbitrary: s rule: less_induct)
  case less
  let ?P = "\<lambda>m :: mcu. \<not> (fst m = 0x20 \<and> snd m \<noteq> 0)"
  have tail: "guarded (case s of [] \<Rightarrow> [] | ch # s' \<Rightarrow> ch # replaceAll test re_link (mark_template 5 t_link) s')"
  proof (cases s)
    case Nil
    then show ?thesis by simp
  next
    case (Cons ch s')
    then have "guarded (replaceAll test re_link (mark_template 5 t_link) s')"
      using less by simp
    moreover have "guarded [ch]" using less.prems Cons by (simp add: guarded_def)
    ultimately have "guarded ([ch] @ replaceAll test re_link (mark_template 5 t_link) s')"
      by (rule guarded_append [rotated])
    then show ?thesis using Cons by simp
  qed
  show ?case
  proof (cases "exec test re_link s")
    case None
    then show ?thesis using tail by (simp add: replaceAll.simps [of test re_link _ s])
  next
    case (Some y)
    from exec_keeps [of s ?P, OF less.prems Some]
    have y: "\<forall>m \<in> set (fst y). ?P m" "\<forall>n g. snd y n = Some g \<longrightarrow> (\<forall>m \<in> set g. ?P m)"
      by blast+
    have "\<forall>n g. snd y n = Some g \<longrightarrow> guarded g" using y(2) guarded_no_space by blast
    then have s: "guarded (subst (mark_template 5 t_link) (snd y))"
      using link_template_guarded by (intro guarded_subst) blast+
    show ?thesis
    proof (cases "length (fst y) < length s")
      case True
      then have "guarded (replaceAll test re_link (mark_template 5 t_link) (fst y))"
        using less.hyps y(1) by blast
      then show ?thesis
        using Some True s by (simp add: replaceAll.simps [of test re_link _ s] guarded_append)
    next
      case False
      then show ?thesis
        using Some s tail by (simp add: replaceAll.simps [of test re_link _ s] guarded_append)
    qed
  qed
qed

lemma run_lit:
  "run test (lit xs) (s, c) =
     (if length xs \<le> length s \<and> list_all2 (\<lambda>x m. test (Chr x) m) xs (take (length xs) s)
      then [(drop (length xs) s, c)] else [])"
proof (induction xs arbitrary: s)
  case Nil
  show ?case by (simp add: lit.simps run_Eps)
next
  case (Cons x xs)
  show ?case
  proof (cases s)
    case Nil
    then show ?thesis by (simp add: lit.simps run_Seq)
  next
    case (Cons m s')
    show ?thesis using Cons.IH [of s'] by (simp add: Cons lit.simps run_Seq)
  qed
qed

lemma canon_space: "(canonicalize ch = canonicalize 0x20) = (ch = 0x20)"
  by (rule canonicalize_eq_nonletter) simp_all

lemma unchecked_units: "str ''[ ]'' = [c_lbracket, 0x20, c_rbracket]"
  by (simp add: str_def c_lbracket_def c_rbracket_def)

lemma input_bracket:
  assumes "inserted_ok k sp m" and "fst m = c_lbracket \<or> fst m = c_rbracket"
  shows "snd m = 0"
proof (rule ccontr)
  assume "snd m \<noteq> 0"
  then have u: "fst m \<in> set markup_units" using assms(1) unfolding inserted_ok_def by blast
  have "canonicalize (fst m) \<noteq> canonicalize c_lbracket" "canonicalize (fst m) \<noteq> canonicalize c_rbracket"
    by (rule markup_not_pattern [OF u], simp)+
  then show False using assms(2) by auto
qed

text \<open>
  The unchecked-box rule has a space among its pattern characters; the space that the
  link rule inserted stands behind \<open>a\<close> and not behind a bracket.
\<close>

lemma unchecked_exec_agree:
  assumes g: "spaces_guarded s" and ok: "\<forall>m \<in> set s. inserted_ok 5 True m"
  shows "exec (careful 6) re_unchecked s = exec (lenient 6) re_unchecked s"
proof -
  have "list_all2 (\<lambda>x m. careful 6 (Chr x) m) [c_lbracket, 0x20, c_rbracket]
          (take (Suc (Suc (Suc 0))) s) =
        list_all2 (\<lambda>x m. lenient 6 (Chr x) m) [c_lbracket, 0x20, c_rbracket]
          (take (Suc (Suc (Suc 0))) s)"
    if len: "Suc (Suc (Suc 0)) \<le> length s"
  proof -
    obtain m1 m2 m3 rest where s: "s = m1 # m2 # m3 # rest"
      using len by (auto simp: Suc_le_length_iff)
    have o: "inserted_ok 5 True m1" "inserted_ok 5 True m2" "inserted_ok 5 True m3"
      using ok s by simp_all
    then have k: "snd m1 \<noteq> 6" "snd m2 \<noteq> 6" "snd m3 \<noteq> 6"
      unfolding inserted_ok_def by linarith+
    have g12: "fst m2 = 0x20 \<and> snd m2 \<noteq> 0 \<longrightarrow> snd m1 \<noteq> 0" using g s by simp
    have 1: "fst m1 = c_lbracket \<Longrightarrow> snd m1 = 0" using input_bracket [OF o(1)] by simp
    have 3: "fst m3 = c_rbracket \<Longrightarrow> snd m3 = 0" using input_bracket [OF o(3)] by simp
    show ?thesis
      unfolding s using k g12 1 3 by (auto simp: careful_def lenient_def canon_space)
  qed
  then show ?thesis
    by (simp add: exec_def re_unchecked_def run_lit unchecked_units cong: conj_cong)
qed

lemma unchecked_exec_rest:
  "exec test re_unchecked s = Some y \<Longrightarrow> fst y = drop 3 s"
  by (auto simp: exec_def re_unchecked_def run_lit unchecked_units numeral_3_eq_3 split: if_splits)

lemma unchecked_pass_agree:
  assumes "spaces_guarded s" and "\<forall>m \<in> set s. inserted_ok 5 True m"
  shows "replaceAll (careful 6) re_unchecked t s = replaceAll (lenient 6) re_unchecked t s"
  using assms
proof (induction "length s" arbitrary: s rule: less_induct)
  case less
  have e: "exec (careful 6) re_unchecked s = exec (lenient 6) re_unchecked s"
    using less.prems by (rule unchecked_exec_agree)
  have tail: "(case s of [] \<Rightarrow> [] | ch # s' \<Rightarrow> ch # replaceAll (careful 6) re_unchecked t s') =
              (case s of [] \<Rightarrow> [] | ch # s' \<Rightarrow> ch # replaceAll (lenient 6) re_unchecked t s')"
  proof (cases s)
    case Nil
    then show ?thesis by simp
  next
    case (Cons ch s')
    have "spaces_guarded s'" using less.prems(1) Cons by (auto dest: spaces_guarded_tl)
    then have "replaceAll (careful 6) re_unchecked t s' = replaceAll (lenient 6) re_unchecked t s'"
      using less.hyps [of s'] less.prems(2) Cons by simp
    then show ?thesis using Cons by simp
  qed
  show ?case
  proof (cases "exec (lenient 6) re_unchecked s")
    case None
    then show ?thesis
      using e tail
      by (simp add: replaceAll.simps [of "careful 6" _ t s] replaceAll.simps [of "lenient 6" _ t s])
  next
    case (Some y)
    have y: "fst y = drop 3 s" using Some by (rule unchecked_exec_rest)
    have r: "replaceAll (careful 6) re_unchecked t (fst y) = replaceAll (lenient 6) re_unchecked t (fst y)"
      if "length (fst y) < length s"
    proof -
      have "spaces_guarded (fst y)" unfolding y using less.prems(1) by (rule spaces_guarded_drop)
      moreover have "\<forall>m \<in> set (fst y). inserted_ok 5 True m"
        unfolding y using less.prems(2) by (meson in_set_dropD)
      ultimately show ?thesis using less.hyps [of "fst y"] that by simp
    qed
    show ?thesis
      using e Some tail r
      by (simp add: replaceAll.simps [of "careful 6" _ t s] replaceAll.simps [of "lenient 6" _ t s])
  qed
qed

section \<open>The seven rules on marked text\<close>

lemma from_input_ok: "\<forall>m \<in> set (from_input text). inserted_ok 0 False m"
  by (simp add: from_input_def inserted_ok_def)

lemma no_inserted_space:
  "\<forall>m \<in> set s. inserted_ok k False m \<Longrightarrow> \<forall>m \<in> set s. \<not> (fst m = 0x20 \<and> snd m \<noteq> 0)"
  unfolding inserted_ok_def by blast

lemma pattern_chars:
  "\<forall>x. Chr x \<in> atoms re_underline \<longrightarrow>
     x \<in> set [c_underscore, c_star, c_tilde, c_lbracket, c_rbracket, c_lparen, c_rparen, 0x78]"
  "\<forall>x. Chr x \<in> atoms re_bold \<longrightarrow>
     x \<in> set [c_underscore, c_star, c_tilde, c_lbracket, c_rbracket, c_lparen, c_rparen, 0x78]"
  "\<forall>x. Chr x \<in> atoms re_italic \<longrightarrow>
     x \<in> set [c_underscore, c_star, c_tilde, c_lbracket, c_rbracket, c_lparen, c_rparen, 0x78]"
  "\<forall>x. Chr x \<in> atoms re_strike \<longrightarrow>
     x \<in> set [c_underscore, c_star, c_tilde, c_lbracket, c_rbracket, c_lparen, c_rparen, 0x78]"
  "\<forall>x. Chr x \<in> atoms re_link \<longrightarrow>
     x \<in> set [c_underscore, c_star, c_tilde, c_lbracket, c_rbracket, c_lparen, c_rparen, 0x78]"
  "\<forall>x. Chr x \<in> atoms re_checked \<longrightarrow>
     x \<in> set [c_underscore, c_star, c_tilde, c_lbracket, c_rbracket, c_lparen, c_rparen, 0x78]"
  by (simp_all add: atoms_rules atoms_checked)

lemma careful_is_lenient:
  "convertLine_marked careful (from_input text) = convertLine_marked lenient (from_input text)"
proof -
  define s1 where "s1 = replaceAll (lenient 1) re_underline (mark_template 1 t_underline) (from_input text)"
  define s2 where "s2 = replaceAll (lenient 2) re_bold (mark_template 2 t_bold) s1"
  define s3 where "s3 = replaceAll (lenient 3) re_italic (mark_template 3 t_italic) s2"
  define s4 where "s4 = replaceAll (lenient 4) re_strike (mark_template 4 t_strike) s3"
  define s5 where "s5 = replaceAll (lenient 5) re_link (mark_template 5 t_link) s4"
  define s6 where "s6 = replaceAll (lenient 6) re_unchecked (mark_template 6 t_unchecked) s5"
  have o1: "\<forall>m \<in> set s1. inserted_ok 1 False m"
    unfolding s1_def
    by (rule pass_inserted_ok [OF from_input_ok _ template_markup(1)]) (simp_all add: template_no_space)
  have o2: "\<forall>m \<in> set s2. inserted_ok 2 False m"
    unfolding s2_def
    by (rule pass_inserted_ok [OF o1 _ template_markup(2)]) (simp_all add: template_no_space)
  have o3: "\<forall>m \<in> set s3. inserted_ok 3 False m"
    unfolding s3_def
    by (rule pass_inserted_ok [OF o2 _ template_markup(3)]) (simp_all add: template_no_space)
  have o4: "\<forall>m \<in> set s4. inserted_ok 4 False m"
    unfolding s4_def
    by (rule pass_inserted_ok [OF o3 _ template_markup(4)]) (simp_all add: template_no_space)
  have o5: "\<forall>m \<in> set s5. inserted_ok 5 True m"
    unfolding s5_def
    by (rule pass_inserted_ok [OF o4 _ template_markup(5)]) simp_all
  have o6: "\<forall>m \<in> set s6. inserted_ok 6 True m"
    unfolding s6_def
    by (rule pass_inserted_ok [OF o5 _ template_markup(6)]) simp_all
  have g5: "spaces_guarded s5"
    using link_pass_guarded [OF no_inserted_space [OF o4], of "lenient 5"]
    unfolding s5_def guarded_def by blast
  have 1: "replaceAll (careful 1) re_underline (mark_template 1 t_underline) (from_input text) = s1"
    unfolding s1_def by (rule careful_agrees [OF from_input_ok _ pattern_chars(1)]) simp
  have 2: "replaceAll (careful 2) re_bold (mark_template 2 t_bold) s1 = s2"
    unfolding s2_def by (rule careful_agrees [OF o1 _ pattern_chars(2)]) simp
  have 3: "replaceAll (careful 3) re_italic (mark_template 3 t_italic) s2 = s3"
    unfolding s3_def by (rule careful_agrees [OF o2 _ pattern_chars(3)]) simp
  have 4: "replaceAll (careful 4) re_strike (mark_template 4 t_strike) s3 = s4"
    unfolding s4_def by (rule careful_agrees [OF o3 _ pattern_chars(4)]) simp
  have 5: "replaceAll (careful 5) re_link (mark_template 5 t_link) s4 = s5"
    unfolding s5_def by (rule careful_agrees [OF o4 _ pattern_chars(5)]) simp
  have 6: "replaceAll (careful 6) re_unchecked (mark_template 6 t_unchecked) s5 = s6"
    unfolding s6_def by (rule unchecked_pass_agree [OF g5 o5])
  have 7: "replaceAll (careful 7) re_checked (mark_template 7 t_checked) s6 =
           replaceAll (lenient 7) re_checked (mark_template 7 t_checked) s6"
    by (rule careful_agrees [OF o6 _ pattern_chars(6)]) simp
  show ?thesis
    unfolding convertLine_marked_def 1 2 3 4 5 6 7
    unfolding s1_def s2_def s3_def s4_def s5_def s6_def ..
qed

lemma underline_in_italic_source:
  "convertLineToMarkdown (str ''*_a_*'') = str ''<em><u>a</u></em>''"
  by code_simp

lemma underline_in_italic_opaque:
  "unmark (convertLine_marked opaque (from_input (str ''*_a_*''))) = str ''*<u>a</u>*''"
  by code_simp

lemma underline_in_italic_capture:
  "map_option (\<lambda>y. snd y 1)
     (exec (lenient 3) re_italic
       (replaceAll (lenient 1) re_underline (mark_template 1 t_underline)
         (from_input (str ''*_a_*'')))) =
   Some (Some (map (\<lambda>ch. (ch, 1)) (str ''<u>'') @ [(0x61, 0)] @ map (\<lambda>ch. (ch, 1)) (str ''</u>'')))"
  by code_simp

text \<open>
  A later rule does match the markup that a rule inserted. On \<open>*_a_*\<close> the
  underline rule inserts \<open><u>\<close> and \<open></u>\<close>, and the italic rule then matches from the
  first asterisk to the last, its group capturing the inserted tags: the result is
  \<open><em><u>a</u></em>\<close>, where a transformer whose rules do not match inserted markup
  gives \<open>*<u>a</u>*\<close>.
\<close>

theorem inserted_markup_taken_by_italic:
  "convertLineToMarkdown (str ''*_a_*'') = str ''<em><u>a</u></em>'' \<and>
   map_option (\<lambda>y. snd y 1)
     (exec (lenient 3) re_italic
       (replaceAll (lenient 1) re_underline (mark_template 1 t_underline)
         (from_input (str ''*_a_*'')))) =
   Some (Some (map (\<lambda>ch. (ch, 1)) (str ''<u>'') @ [(0x61, 0)] @ map (\<lambda>ch. (ch, 1)) (str ''</u>''))) \<and>
   unmark (convertLine_marked opaque (from_input (str ''*_a_*''))) = str ''*<u>a</u>*''"
  using underline_in_italic_source underline_in_italic_capture underline_in_italic_opaque
  by (intro conjI)

text \<open>
  C4, as amended: the transformer on marked text is the transformer of the source, and it
  gives the same marked result when every rule refuses the markup that it inserted
  itself and the pattern characters of every rule (the delimiters \<open>_\<close>, \<open>*\<close>, \<open>~\<close>,
  \<open>[\<close>, \<open>]\<close>, \<open>(\<close>, \<open>)\<close>, the space and the \<open>x\<close> of the boxes) accept text of the input line
  only. So no rule is applied again to what it inserted, and inserted markup is never
  taken as a delimiter; a later rule takes it only as part of the text between its
  delimiters.
\<close>

theorem inserted_markup_not_a_delimiter:
  "unmark (convertLine_marked lenient (from_input text)) = convertLineToMarkdown text \<and>
   convertLine_marked careful (from_input text) = convertLine_marked lenient (from_input text)"
  using convertLine_marked_lenient careful_is_lenient by (intro conjI)

end
